theory Spec2Isabelle
  imports Main "HOL-Library.AList" "HOL-Library.Sublist"
begin

section \<open>Python values, dictionaries and the object store\<close>

text \<open>
  The program is \<^verbatim>\<open>converter/table_to_csv.py\<close>: a class \<^verbatim>\<open>XMLParser\<close> that walks
  the events of lxml's \<^verbatim>\<open>iterparse\<close>, calls a handler for every \<^verbatim>\<open>end\<close> event and
  prunes the tree behind it, and a handler \<^verbatim>\<open>convert_to_csv\<close>.

  Dictionaries are association lists: \<^const>\<open>AList.update\<close> overwrites the value of a
  key that is present where it stands and appends a new key at the end, which is what
  assignment to a Python \<^verbatim>\<open>dict\<close> does. Two dictionaries of the program are shared
  between the caller, the loop and the handler (\<^verbatim>\<open>self.callable_kwargs\<close> and the local
  \<^verbatim>\<open>namespaces\<close>), so dictionaries live in a store and are passed around as addresses.
\<close>

type_synonym addr = nat

datatype pyval = PNone | PStr string | PRef addr

type_synonym pydict = "(string \<times> pyval) list"

type_synonym store = "pydict list"

text \<open>A dictionary display \<^verbatim>\<open>{}\<close> makes a new object: the next free address.\<close>

definition alloc :: "pydict \<Rightarrow> store \<Rightarrow> addr \<times> store" where
  "alloc d h = (length h, h @ [d])"

datatype py_error =
    TypeError
  | RuntimeError string
  | OSError nat string
  | XMLSyntaxError
  | XMLSchemaParseError
  | DocumentInvalid
  | XPathEvalError
  | HandlerError string

section \<open>The namespace dictionary\<close>

text \<open>
  Lines 70 to 74, the \<^verbatim>\<open>start-ns\<close> branch of the loop:
  \<^verbatim>\<open>prefix, url = element; if not prefix: prefix = 'ns'; namespaces[prefix] = url\<close>.
  lxml delivers the prefix as a string, empty for the default namespace.
\<close>

definition ns_key :: "string \<Rightarrow> string" where
  "ns_key pfx = (if pfx = [] then ''ns'' else pfx)"

definition start_ns :: "string \<times> string \<Rightarrow> pydict \<Rightarrow> pydict" where
  "start_ns element namespaces =
     (case element of (pfx, url) \<Rightarrow> AList.update (ns_key pfx) (PStr url) namespaces)"

text \<open>A sequence of \<^verbatim>\<open>start-ns\<close> events, oldest first.\<close>

fun start_ns_all :: "(string \<times> string) list \<Rightarrow> pydict \<Rightarrow> pydict" where
  "start_ns_all [] namespaces = namespaces"
| "start_ns_all (e # es) namespaces = start_ns_all es (start_ns e namespaces)"

section \<open>Files: the guard and the cleanup\<close>

datatype fsnode = File string | Dir

type_synonym filesystem = "string \<Rightarrow> fsnode option"

record world =
  files :: filesystem
  stdout :: "string list"

definition ENOENT :: nat where
  "ENOENT = 2"

definition EISDIR :: nat where
  "EISDIR = 21"

text \<open>
  \<^verbatim>\<open>os.path.isfile(file) and os.path.getsize(file) > 0\<close> (line 92): a regular file whose
  content is not empty. A missing path and a directory are not files.
\<close>

definition is_non_empty_file :: "string \<Rightarrow> filesystem \<Rightarrow> bool" where
  "is_non_empty_file file fs =
     (case fs file of Some (File content) \<Rightarrow> 0 < length content | _ \<Rightarrow> False)"

text \<open>
  \<^verbatim>\<open>os.remove\<close> on this file system: a missing path is \<^verbatim>\<open>ENOENT\<close>, a directory is
  refused, a file is unlinked. A failed call changes nothing.
\<close>

definition os_remove :: "string \<Rightarrow> filesystem \<Rightarrow> py_error + filesystem" where
  "os_remove file fs =
     (case fs file of
        None \<Rightarrow> Inl (OSError ENOENT ''No such file or directory'')
      | Some Dir \<Rightarrow> Inl (OSError EISDIR ''Is a directory'')
      | Some (File content) \<Rightarrow> Inr (fs(file := None)))"

text \<open>
  \<^verbatim>\<open>delete_file\<close> (lines 95 to 105). The primitive that removes the file is a parameter,
  so that every error the operating system can answer with is covered, not only the two
  that \<^const>\<open>os_remove\<close> knows. \<^verbatim>\<open>except OSError\<close> catches an \<^const>\<open>OSError\<close> and nothing
  else; the handler prints the error unless its number is \<^verbatim>\<open>errno.ENOENT\<close>.
\<close>

definition delete_file ::
  "(string \<Rightarrow> filesystem \<Rightarrow> py_error + filesystem) \<Rightarrow> string \<Rightarrow> world \<Rightarrow> (py_error \<times> world) + world"
where
  "delete_file remove file w =
     (case remove file (files w) of
        Inr fs \<Rightarrow> Inr (w\<lparr>files := fs, stdout := stdout w @ [''File deleted: '' @ file @ ''.'']\<rparr>)
      | Inl (OSError errno msg) \<Rightarrow>
          (if errno \<noteq> ENOENT then Inr (w\<lparr>stdout := stdout w @ [msg @ ''.'']\<rparr>) else Inr w)
      | Inl e \<Rightarrow> Inl (e, w))"

section \<open>The element tree\<close>

text \<open>
  An element has an identity, a tag (in Clark notation when it has a namespace),
  attributes, the text before its first child, and children. The identity \<open>el_id\<close> stands
  for the identity of the Python object: the parser numbers the nodes in the order in
  which it creates them. Comments and processing instructions are nodes of the tree as
  they are in lxml, where they are siblings and children like elements
  (\<^verbatim>\<open>getprevious\<close>, \<^verbatim>\<open>del parent[0]\<close> and iteration see them): they have no children,
  their text is their content, and in place of a tag they carry the marker
  \<^verbatim>\<open>#comment\<close> or \<^verbatim>\<open>#pi\<close>, which is not the name of any element. Tail text is not
  modelled.

  The tree hangs below a document node, the node at the empty address. Its children are
  the root element of the document and the comments and processing instructions before
  and after it. lxml does not hand out the document node: \<^verbatim>\<open>getparent()\<close> of the root
  element is \<^verbatim>\<open>None\<close>. An address is the list of child indices that leads from the
  document node to a node.
\<close>

datatype node =
  Node (el_id: nat) (el_tag: string) (el_attrib: "(string \<times> string) list")
    (el_text: "string option") (el_children: "node list")

definition is_element :: "node \<Rightarrow> bool" where
  "is_element n \<longleftrightarrow> el_tag n \<noteq> ''#comment'' \<and> el_tag n \<noteq> ''#pi''"

fun subtree_at :: "nat list \<Rightarrow> node \<Rightarrow> node option" where
  "subtree_at [] t = Some t"
| "subtree_at (i # p) t =
     (if i < length (el_children t) then subtree_at p (el_children t ! i) else None)"

text \<open>
  The element at an address. lxml only hands out elements that are in the tree; for an
  address that leads out of the tree the last element on the way is returned.
\<close>

fun node_at :: "nat list \<Rightarrow> node \<Rightarrow> node" where
  "node_at [] t = t"
| "node_at (i # p) t =
     (if i < length (el_children t) then node_at p (el_children t ! i) else t)"

fun update_at :: "nat list \<Rightarrow> (node \<Rightarrow> node) \<Rightarrow> node \<Rightarrow> node" where
  "update_at [] f t = f t"
| "update_at (i # p) f t =
     Node (el_id t) (el_tag t) (el_attrib t) (el_text t)
       ((el_children t)[i := update_at p f (el_children t ! i)])"

text \<open>\<^verbatim>\<open>element.clear()\<close>: children, text and attributes go; the tag stays.\<close>

definition clear :: "node \<Rightarrow> node" where
  "clear t = Node (el_id t) (el_tag t) [] None []"

text \<open>
  \<^verbatim>\<open>del parent[0]\<close>. In the loop it only runs while the parent has a child with a
  previous sibling, so the parent has a first child to delete.
\<close>

definition del_first :: "node \<Rightarrow> node" where
  "del_first t = Node (el_id t) (el_tag t) (el_attrib t) (el_text t) (tl (el_children t))"

definition append_child :: "node \<Rightarrow> node \<Rightarrow> node" where
  "append_child c t = Node (el_id t) (el_tag t) (el_attrib t) (el_text t) (el_children t @ [c])"

text \<open>
  Character data that arrives before the first child is the text of the element; after
  a child it is the tail of that child, which the model leaves out.
\<close>

definition add_text :: "string \<Rightarrow> node \<Rightarrow> node" where
  "add_text s t =
     (if el_children t = []
      then Node (el_id t) (el_tag t) (el_attrib t)
             (Some (case el_text t of None \<Rightarrow> s | Some s0 \<Rightarrow> s0 @ s)) []
      else t)"

section \<open>Pruning: lines 79 to 83\<close>

text \<open>
  \<^verbatim>\<open>while ancestor.getprevious() is not None: del ancestor.getparent()[0]\<close>.
  The ancestor is the child number \<open>k\<close> of its parent; it has a previous sibling (an
  element, a comment or a processing instruction) as long as \<open>k\<close> is not zero, and
  deleting the first child of its parent moves it one place to the left. \<open>parent\<close> is
  what \<^verbatim>\<open>getparent()\<close> returns: the address of the parent, or \<open>None\<close> for the root
  element, and then \<^verbatim>\<open>del None[0]\<close> raises \<^verbatim>\<open>TypeError\<close>. The tree is returned as it
  is at the raise.
\<close>

fun drop_previous :: "nat list option \<Rightarrow> nat \<Rightarrow> node \<Rightarrow> (py_error \<times> node) + node" where
  "drop_previous parent 0 t = Inr t"
| "drop_previous None (Suc k) t = Inl (TypeError, t)"
| "drop_previous (Some parent) (Suc k) t =
     drop_previous (Some parent) k (update_at parent del_first t)"

text \<open>
  \<^verbatim>\<open>for ancestor in element.xpath('ancestor-or-self::*')\<close>: the root element first, the
  element itself last. The first ancestor is the root element, whose parent is \<open>None\<close>.
  When the loop reaches a later ancestor, the ancestors above it have been moved to the
  first place of their parents, so its parent is at an address of zeros.
\<close>

fun for_ancestors :: "nat list option \<Rightarrow> nat list \<Rightarrow> node \<Rightarrow> (py_error \<times> node) + node" where
  "for_ancestors parent [] t = Inr t"
| "for_ancestors parent (i # rest) t =
     (case drop_previous parent i t of
        Inl x \<Rightarrow> Inl x
      | Inr t1 \<Rightarrow>
          for_ancestors (Some (case parent of None \<Rightarrow> [0] | Some a \<Rightarrow> a @ [0])) rest t1)"

text \<open>Lines 79 to 83: \<^verbatim>\<open>element.clear()\<close>, then the loop over the ancestors.\<close>

definition prune :: "nat list \<Rightarrow> node \<Rightarrow> (py_error \<times> node) + node" where
  "prune element doc = for_ancestors None element (update_at element clear doc)"

text \<open>
  What pruning amounts to, in the words of the specification: the element is emptied,
  and every element on the way from the root to it loses the siblings on its left.
  The siblings on the right and all they contain stay.
\<close>

fun discard_left :: "nat list \<Rightarrow> node \<Rightarrow> node" where
  "discard_left [] t = clear t"
| "discard_left (i # p) t =
     Node (el_id t) (el_tag t) (el_attrib t) (el_text t)
       (discard_left p (el_children t ! i) # drop (Suc i) (el_children t))"

section \<open>The event source: lxml's iterparse\<close>

text \<open>
  The tokenizer of lxml is outside the program. It is taken as the sequence of
  tokens it reads from the file: start tags with the namespaces they declare, character
  data (blank text already removed), end tags, comments, processing instructions (target
  and content), and an error where the document is malformed or fails validation.
\<close>

datatype sax =
    StartElement string "(string \<times> string) list" "(string \<times> string) list"
  | Characters string
  | EndElement
  | Comment string
  | ProcessingInstruction string string
  | ParseError py_error

text \<open>
  The events the loop receives: \<^verbatim>\<open>('start-ns', (prefix, uri))\<close> and
  \<^verbatim>\<open>('end', element)\<close>, the element given by its address in the tree.
\<close>

datatype event = StartNs "string \<times> string" | End "nat list"

text \<open>
  The tag filter of \<^verbatim>\<open>iterparse(tag=...)\<close>: no filter matches every element, a filter
  matches the elements whose tag is the filter.
\<close>

definition tag_matches :: "string option \<Rightarrow> string \<Rightarrow> bool" where
  "tag_matches f t = (case f of None \<Rightarrow> True | Some x \<Rightarrow> x = t)"

text \<open>
  The parser builds the tree at its right edge: the open elements are the last
  \<open>ip_depth\<close> elements of the branch of last children.
\<close>

fun rightmost :: "nat \<Rightarrow> node \<Rightarrow> nat list" where
  "rightmost 0 t = []"
| "rightmost (Suc d) t =
     (case el_children t of
        [] \<Rightarrow> []
      | c # cs \<Rightarrow> length cs # rightmost d (last (c # cs)))"

record iterparse =
  ip_tag :: "string option"
  ip_doc :: node
  ip_depth :: nat
  ip_next :: nat

definition iterparse_new :: "string option \<Rightarrow> iterparse" where
  "iterparse_new f = \<lparr>ip_tag = f, ip_doc = Node 0 ''#document'' [] None [], ip_depth = 0, ip_next = 1\<rparr>"

text \<open>
  One token: what it does to the tree and which events it makes. A start tag appends
  an element below the open one and announces its namespace declarations; an end tag
  closes the open element and announces it if its tag matches the filter. The tree is
  built whether or not the filter matches. A comment or a processing instruction is
  appended below the open element, or beside the root element when none is open, and
  makes no event. A second root element is an error.
\<close>

definition feed :: "sax \<Rightarrow> iterparse \<Rightarrow> py_error + (event list \<times> iterparse)" where
  "feed tok ip =
     (case tok of
        StartElement t ns at \<Rightarrow>
          (if ip_depth ip = 0 \<and> list_ex is_element (el_children (ip_doc ip)) then Inl XMLSyntaxError
           else Inr (map StartNs ns,
             ip\<lparr>ip_doc := update_at (rightmost (ip_depth ip) (ip_doc ip))
                          (append_child (Node (ip_next ip) t at None [])) (ip_doc ip),
                ip_depth := Suc (ip_depth ip),
                ip_next := Suc (ip_next ip)\<rparr>))
      | Characters s \<Rightarrow>
          (if ip_depth ip = 0 then Inl XMLSyntaxError
           else Inr ([],
             ip\<lparr>ip_doc := update_at (rightmost (ip_depth ip) (ip_doc ip)) (add_text s) (ip_doc ip)\<rparr>))
      | EndElement \<Rightarrow>
          (if ip_depth ip = 0 then Inl XMLSyntaxError
           else Inr (if tag_matches (ip_tag ip)
                          (el_tag (node_at (rightmost (ip_depth ip) (ip_doc ip)) (ip_doc ip)))
                     then [End (rightmost (ip_depth ip) (ip_doc ip))] else [],
                  ip\<lparr>ip_depth := ip_depth ip - 1\<rparr>))
      | Comment c \<Rightarrow>
          Inr ([],
            ip\<lparr>ip_doc := update_at (rightmost (ip_depth ip) (ip_doc ip))
                         (append_child (Node (ip_next ip) ''#comment'' [] (Some c) [])) (ip_doc ip),
               ip_next := Suc (ip_next ip)\<rparr>)
      | ProcessingInstruction target c \<Rightarrow>
          Inr ([],
            ip\<lparr>ip_doc := update_at (rightmost (ip_depth ip) (ip_doc ip))
                         (append_child (Node (ip_next ip) ''#pi'' [] (Some c) [])) (ip_doc ip),
               ip_next := Suc (ip_next ip)\<rparr>)
      | ParseError e \<Rightarrow> Inl e)"

section \<open>The parser object and the loop\<close>

text \<open>
  A handler receives the element (the subtree at its address), the positional
  arguments, a copy of the keyword arguments (the values are references), and can read
  the store and act on the world. It returns or raises.
\<close>

type_synonym handler =
  "node \<Rightarrow> pyval list \<Rightarrow> pydict \<Rightarrow> store \<Rightarrow> world \<Rightarrow> (py_error \<times> world) + world"

record XMLParser =
  xml_file :: string
  python_callable :: handler
  callable_args :: "pyval list"
  callable_kwargs :: addr
  tag :: "string option"
  dtd_validation :: bool
  schema :: "string option"

text \<open>One call of the handler, as it was made: for stating what a handler was given.\<close>

record call =
  c_element :: node
  c_args :: "pyval list"
  c_kwargs :: pydict
  c_store :: store

record session =
  xml_tree :: iterparse
  heap :: store
  os :: world
  calls :: "call list"

text \<open>
  The body of the loop (lines 70 to 83) for one event. \<open>namespaces\<close> is the address of
  the local dictionary. An exception of the handler leaves the loop with the state as it
  is then: the keyword dictionary already updated, the tree not pruned. An exception of
  the pruning leaves it after the handler has returned, with the tree as it is at the
  raise.
\<close>

definition loop_body ::
  "XMLParser \<Rightarrow> addr \<Rightarrow> event \<Rightarrow> session \<Rightarrow> (py_error \<times> session) + session"
where
  "loop_body self namespaces ev s =
     (case ev of
        StartNs element \<Rightarrow>
          Inr (s\<lparr>heap := (heap s)[namespaces := start_ns element (heap s ! namespaces)]\<rparr>)
      | End element \<Rightarrow>
          (let h = (if heap s ! namespaces \<noteq> []
                    then (heap s)[callable_kwargs self :=
                           AList.update ''namespaces'' (PRef namespaces) (heap s ! callable_kwargs self)]
                    else heap s);
               el = node_at element (ip_doc (xml_tree s));
               s1 = s\<lparr>heap := h,
                       calls := calls s @
                         [\<lparr>c_element = el, c_args = callable_args self,
                           c_kwargs = h ! callable_kwargs self, c_store = h\<rparr>]\<rparr>
           in case python_callable self el (callable_args self) (h ! callable_kwargs self) h (os s) of
                Inl (e, w) \<Rightarrow> Inl (e, s1\<lparr>os := w\<rparr>)
              | Inr w \<Rightarrow>
                  (case prune element (ip_doc (xml_tree s)) of
                     Inl (e, t) \<Rightarrow>
                       Inl (e, s1\<lparr>os := w, xml_tree := (xml_tree s)\<lparr>ip_doc := t\<rparr>\<rparr>)
                   | Inr t \<Rightarrow>
                       Inr (s1\<lparr>os := w, xml_tree := (xml_tree s)\<lparr>ip_doc := t\<rparr>\<rparr>))))"

fun for_events ::
  "XMLParser \<Rightarrow> addr \<Rightarrow> event list \<Rightarrow> session \<Rightarrow> (py_error \<times> session) + session"
where
  "for_events self namespaces [] s = Inr s"
| "for_events self namespaces (ev # evs) s =
     (case loop_body self namespaces ev s of
        Inl x \<Rightarrow> Inl x
      | Inr s1 \<Rightarrow> for_events self namespaces evs s1)"

text \<open>
  \<^verbatim>\<open>for event, element in xml_tree\<close>: the iterator reads a token, and the loop body runs
  on the events of that token before the next token is read. lxml reads the file in
  blocks, so its tree may already hold nodes that come after the element of the event;
  what is proved about the pruning is therefore stated for every tree and every address
  in it, and the order of the events is the same.
\<close>

fun for_tokens ::
  "XMLParser \<Rightarrow> addr \<Rightarrow> sax list \<Rightarrow> session \<Rightarrow> (py_error \<times> session) + session"
where
  "for_tokens self namespaces [] s = Inr s"
| "for_tokens self namespaces (tok # toks) s =
     (case feed tok (xml_tree s) of
        Inl e \<Rightarrow> Inl (e, s)
      | Inr (evs, ip) \<Rightarrow>
          (case for_events self namespaces evs (s\<lparr>xml_tree := ip\<rparr>) of
             Inl x \<Rightarrow> Inl x
           | Inr s1 \<Rightarrow> for_tokens self namespaces toks s1))"

text \<open>\<^verbatim>\<open>fast_iteration\<close> (lines 60 to 85): \<^verbatim>\<open>namespaces = {}\<close>, then the loop.\<close>

definition fast_iteration ::
  "XMLParser \<Rightarrow> sax list \<Rightarrow> session \<Rightarrow> (py_error \<times> session) + session"
where
  "fast_iteration self toks s =
     (case alloc [] (heap s) of
        (namespaces, h) \<Rightarrow> for_tokens self namespaces toks (s\<lparr>heap := h\<rparr>))"

section \<open>Starting a session: the constructor\<close>

text \<open>
  The two services of lxml that the constructor uses are parameters:
  \<^verbatim>\<open>etree.XMLSchema(etree.XML(schema))\<close>, which raises when the bytes are not a schema, and
  the tokenizer behind \<^verbatim>\<open>etree.iterparse\<close>, which reads the content of the file under
  the validation that was asked for.
\<close>

record etree =
  XMLSchema :: "string \<Rightarrow> py_error option"
  tokens :: "string \<Rightarrow> bool \<Rightarrow> string option \<Rightarrow> sax list"

text \<open>
  The arguments of \<^verbatim>\<open>XMLParser(...)\<close>. An object that is not callable is \<open>None\<close> in
  \<open>a_python_callable\<close>; the dictionary of keyword arguments is an address in the
  caller's store.
\<close>

record arguments =
  a_xml_file :: string
  a_python_callable :: "handler option"
  a_callable_args :: "pyval list option"
  a_callable_kwargs :: "addr option"
  a_tag :: "string option"
  a_dtd_validation :: bool
  a_schema :: "string option"

definition file_content :: "string \<Rightarrow> filesystem \<Rightarrow> string" where
  "file_content file fs = (case fs file of Some (File content) \<Rightarrow> content | _ \<Rightarrow> [])"

text \<open>
  \<^verbatim>\<open>callable_kwargs or {}\<close> (line 41): the caller's dictionary, unless none was given or
  the one given is empty; then a new empty dictionary.
\<close>

definition kwargs_or_new :: "addr option \<Rightarrow> store \<Rightarrow> addr \<times> store" where
  "kwargs_or_new given h =
     (case given of
        None \<Rightarrow> alloc [] h
      | Some k \<Rightarrow> if h ! k = [] then alloc [] h else (k, h))"

text \<open>
  The fields of the new object (lines 38 to 44). \<^verbatim>\<open>callable_args or []\<close>; a schema
  that is absent or empty is no schema, and a schema that is kept has been compiled.
\<close>

definition new_self :: "arguments \<Rightarrow> handler \<Rightarrow> addr \<Rightarrow> XMLParser" where
  "new_self a f kwargs =
     \<lparr>xml_file = a_xml_file a, python_callable = f,
      callable_args = (case a_callable_args a of None \<Rightarrow> [] | Some xs \<Rightarrow> xs),
      callable_kwargs = kwargs, tag = a_tag a,
      dtd_validation = a_dtd_validation a,
      schema = (case a_schema a of None \<Rightarrow> None | Some b \<Rightarrow> if b = [] then None else Some b)\<rparr>"

definition compile_schema :: "etree \<Rightarrow> string option \<Rightarrow> py_error option" where
  "compile_schema lib sch = (case sch of None \<Rightarrow> None | Some b \<Rightarrow> XMLSchema lib b)"

text \<open>The state in which the parse starts: no tree yet, no call made.\<close>

definition start_session :: "string option \<Rightarrow> store \<Rightarrow> world \<Rightarrow> session" where
  "start_session f h w = \<lparr>xml_tree = iterparse_new f, heap = h, os = w, calls = []\<rparr>"

text \<open>
  \<^verbatim>\<open>__init__\<close> (lines 26 to 58), in the order of the source: the callable check, the
  fields, the schema, and then the guard on the input file in front of the parse.
\<close>

definition XMLParser_init ::
  "etree \<Rightarrow> arguments \<Rightarrow> store \<Rightarrow> world \<Rightarrow> (py_error \<times> session) + (XMLParser \<times> session)"
where
  "XMLParser_init lib a h w =
     (case a_python_callable a of
        None \<Rightarrow> Inl (TypeError, start_session (a_tag a) h w)
      | Some f \<Rightarrow>
          (case kwargs_or_new (a_callable_kwargs a) h of
             (kwargs, h1) \<Rightarrow>
               (let self = new_self a f kwargs;
                    s = start_session (tag self) h1 w
                in case compile_schema lib (schema self) of
                     Some e \<Rightarrow> Inl (e, s)
                   | None \<Rightarrow>
                       (if is_non_empty_file (xml_file self) (files w)
                        then (case fast_iteration self
                                     (tokens lib (file_content (xml_file self) (files w))
                                        (dtd_validation self) (schema self)) s of
                                Inl x \<Rightarrow> Inl x
                              | Inr s1 \<Rightarrow> Inr (self, s1))
                        else Inl (RuntimeError (xml_file self @ '' is empty or non-existing.''), s)))))"

text \<open>The state a call of the constructor ends in, whether it returned or raised.\<close>

definition final_init :: "(py_error \<times> session) + (XMLParser \<times> session) \<Rightarrow> session" where
  "final_init r = (case r of Inl (e, s) \<Rightarrow> s | Inr (self, s) \<Rightarrow> s)"

section \<open>The handler of the repository: convert_to_csv\<close>

text \<open>
  \<^verbatim>\<open>element.xpath("ns:c1/text()", namespaces=namespaces)\<close> (line 115). lxml raises
  \<^verbatim>\<open>XPathEvalError\<close> (undefined namespace prefix) when the mapping does not bind the
  prefix \<^verbatim>\<open>ns\<close>, and it has no mapping when \<^verbatim>\<open>namespaces\<close> is \<^verbatim>\<open>None\<close>. Otherwise the
  result is the text of the children whose tag is \<^verbatim>\<open>c1\<close> in the namespace bound to
  \<^verbatim>\<open>ns\<close>.
\<close>

definition xpath_ns_c1 :: "node \<Rightarrow> pyval option \<Rightarrow> store \<Rightarrow> py_error + string list" where
  "xpath_ns_c1 element namespaces h =
     (case namespaces of
        None \<Rightarrow> Inl XPathEvalError
      | Some PNone \<Rightarrow> Inl XPathEvalError
      | Some (PStr s) \<Rightarrow> Inl TypeError
      | Some (PRef a) \<Rightarrow>
          (case map_of (h ! a) ''ns'' of
             None \<Rightarrow> Inl XPathEvalError
           | Some (PStr uri) \<Rightarrow>
               Inr (concat (map (\<lambda>c. case el_text c of None \<Rightarrow> [] | Some s \<Rightarrow> [s])
                      (filter (\<lambda>c. el_tag c = ''{'' @ uri @ ''}c1'') (el_children element))))
           | Some v \<Rightarrow> Inl TypeError))"

text \<open>How \<^verbatim>\<open>print\<close> shows a list of strings (escapes inside the strings left out).\<close>

fun join :: "string \<Rightarrow> string list \<Rightarrow> string" where
  "join sep [] = []"
| "join sep [x] = x"
| "join sep (x # y # ys) = x @ sep @ join sep (y # ys)"

definition repr_list :: "string list \<Rightarrow> string" where
  "repr_list xs = ''['' @ join '', '' (map (\<lambda>x. [CHR 0x27] @ x @ [CHR 0x27]) xs) @ '']''"

text \<open>
  \<^verbatim>\<open>csv.writer(file, delimiter=';', quotechar='"', quoting=csv.QUOTE_MINIMAL)\<close> and
  \<^verbatim>\<open>writer.writerow(row)\<close>: \<^verbatim>\<open>None\<close> is written as the empty string; a field is quoted
  when it holds the delimiter, the quote character or a character of the line
  terminator, and quote characters inside it are doubled; a row that is one empty field
  is written as two quote characters; the line ends with carriage return and line feed.
\<close>

definition csv_field :: "string option \<Rightarrow> string" where
  "csv_field v =
     (let x = (case v of None \<Rightarrow> [] | Some x \<Rightarrow> x)
      in if \<exists>c \<in> set x. c \<in> {CHR '';'', CHR 0x22, CHR 0x0D, CHR 0x0A}
         then [CHR 0x22] @ concat (map (\<lambda>c. if c = CHR 0x22 then [c, c] else [c]) x) @ [CHR 0x22]
         else x)"

definition writerow :: "string option list \<Rightarrow> string" where
  "writerow row =
     (if row \<noteq> [] \<and> join '';'' (map csv_field row) = []
      then [CHR 0x22, CHR 0x22]
      else join '';'' (map csv_field row)) @ [CHR 0x0D, CHR 0x0A]"

text \<open>
  \<^verbatim>\<open>convert_to_csv(element, **kwargs)\<close> (lines 108 to 121). It takes no positional
  argument besides the element. The \<^verbatim>\<open>print\<close> of line 115 comes first; then the file
  is opened for appending, which creates it when it is missing, and the row of the texts
  of the children is written.
\<close>

definition convert_to_csv :: handler where
  "convert_to_csv element args kwargs h w =
     (if args \<noteq> [] then Inl (TypeError, w)
      else case xpath_ns_c1 element (map_of kwargs ''namespaces'') h of
             Inl e \<Rightarrow> Inl (e, w)
           | Inr c1 \<Rightarrow>
               (let w1 = w\<lparr>stdout := stdout w @ [''c1: '' @ repr_list c1]\<rparr>;
                    row = map el_text (el_children element)
                in case map_of kwargs ''csv_file'' of
                     Some (PStr csv_file) \<Rightarrow>
                       (case files w1 csv_file of
                          Some Dir \<Rightarrow> Inl (OSError EISDIR ''Is a directory'', w1)
                        | Some (File old) \<Rightarrow>
                            Inr (w1\<lparr>files := (files w1)(csv_file \<mapsto> File (old @ writerow row))\<rparr>)
                        | None \<Rightarrow>
                            Inr (w1\<lparr>files := (files w1)(csv_file \<mapsto> File (writerow row))\<rparr>))
                   | _ \<Rightarrow> Inl (TypeError, w1)))"

section \<open>Documents\<close>

text \<open>
  A well-formed document without comments and processing instructions is a tree of
  elements: tag, namespace declarations, attributes, text, children. Its tokens are what
  the tokenizer reads from it.
\<close>

datatype xml =
  Elem string "(string \<times> string) list" "(string \<times> string) list" "string option" "xml list"

fun tokens_of :: "xml \<Rightarrow> sax list" where
  "tokens_of (Elem t ns at tx cs) =
     StartElement t ns at
       # (case tx of None \<Rightarrow> [] | Some s \<Rightarrow> [Characters s])
       @ concat (map tokens_of cs) @ [EndElement]"

fun count_elems :: "xml \<Rightarrow> nat" where
  "count_elems (Elem t ns at tx cs) = Suc (sum_list (map count_elems cs))"

fun count_matching :: "string option \<Rightarrow> xml \<Rightarrow> nat" where
  "count_matching f (Elem t ns at tx cs) =
     (if tag_matches f t then 1 else 0) + sum_list (map (count_matching f) cs)"

text \<open>
  The elements that match the filter, in the order of their end tags, each named by
  its number in the order of the start tags, counted from \<open>n\<close>.
\<close>

fun ends :: "string option \<Rightarrow> nat \<Rightarrow> xml \<Rightarrow> nat list"
  and ends_list :: "string option \<Rightarrow> nat \<Rightarrow> xml list \<Rightarrow> nat list" where
  "ends f n (Elem t ns at tx cs) = ends_list f (Suc n) cs @ (if tag_matches f t then [n] else [])"
| "ends_list f n [] = []"
| "ends_list f n (c # cs) = ends f n c @ ends_list f (n + count_elems c) cs"

section \<open>Auxiliary functions for the proofs\<close>

text \<open>\<open>drop_children k\<close> is \<open>k\<close> times \<^const>\<open>del_first\<close>.\<close>

definition drop_children :: "nat \<Rightarrow> node \<Rightarrow> node" where
  "drop_children k t = Node (el_id t) (el_tag t) (el_attrib t) (el_text t) (drop k (el_children t))"

text \<open>\<^const>\<open>discard_left\<close> without emptying the element: what the \<^verbatim>\<open>for\<close> loop alone does.\<close>

fun keep_right :: "nat list \<Rightarrow> node \<Rightarrow> node" where
  "keep_right [] t = t"
| "keep_right (i # p) t =
     Node (el_id t) (el_tag t) (el_attrib t) (el_text t)
       (keep_right p (el_children t ! i) # drop (Suc i) (el_children t))"

section \<open>Example inputs\<close>

text \<open>
  A tree in which the element \<open>y\<close> at the address \<open>[0, 1, 0]\<close> has no sibling, its
  parent \<open>b\<close> has the sibling \<open>a\<close> on its left, and the root has none.
\<close>

definition ex_tree :: node where
  "ex_tree = Node 0 ''#document'' [] None
     [Node 1 ''root'' [] None
        [Node 2 ''a'' [] None [],
         Node 3 ''b'' [] None [Node 4 ''y'' [(''k'', ''v'')] (Some ''t'') []]]]"

text \<open>A parser object whose handler does nothing, and a session in the middle of a parse.\<close>

definition ex_self :: XMLParser where
  "ex_self = \<lparr>xml_file = ''in.xml'', python_callable = (\<lambda>el args kwargs h w. Inr w),
     callable_args = [], callable_kwargs = 0, tag = None, dtd_validation = False, schema = None\<rparr>"

definition ex_session :: "node \<Rightarrow> nat \<Rightarrow> session" where
  "ex_session t d = \<lparr>xml_tree = \<lparr>ip_tag = None, ip_doc = t, ip_depth = d, ip_next = 5\<rparr>,
     heap = [[], []], os = \<lparr>files = (\<lambda>p. None), stdout = []\<rparr>, calls = []\<rparr>"

text \<open>The same session when the parser was made with the tag filter \<open>r\<close>.\<close>

definition ex_filtered :: "node \<Rightarrow> nat \<Rightarrow> session" where
  "ex_filtered t d = \<lparr>xml_tree = \<lparr>ip_tag = Some ''r'', ip_doc = t, ip_depth = d, ip_next = 5\<rparr>,
     heap = [[], []], os = \<lparr>files = (\<lambda>p. None), stdout = []\<rparr>, calls = []\<rparr>"

section \<open>Auxiliary notions for the runs\<close>

text \<open>
  The namespace declarations of a token sequence, the state a run ends in, and what the
  loop holds on to between the keyword dictionary and the namespace dictionary.
\<close>

fun declared :: "sax list \<Rightarrow> (string \<times> string) list" where
  "declared [] = []"
| "declared (StartElement t ns at # toks) = ns @ declared toks"
| "declared (tok # toks) = declared toks"

definition final :: "(py_error \<times> session) + session \<Rightarrow> session" where
  "final r = (case r of Inl (e, s) \<Rightarrow> s | Inr s \<Rightarrow> s)"

definition merged :: "addr \<Rightarrow> pydict \<Rightarrow> pydict \<Rightarrow> pydict" where
  "merged namespaces n k = (if n \<noteq> [] then AList.update ''namespaces'' (PRef namespaces) k else k)"

definition kw_ok :: "addr \<Rightarrow> addr \<Rightarrow> pydict \<Rightarrow> store \<Rightarrow> bool" where
  "kw_ok kw ns k h \<longleftrightarrow>
     kw < length h \<and> ns < length h \<and> kw \<noteq> ns
     \<and> (h ! kw = k \<or> (h ! ns \<noteq> [] \<and> h ! kw = AList.update ''namespaces'' (PRef ns) k))"

definition call_ok :: "XMLParser \<Rightarrow> addr \<Rightarrow> pydict \<Rightarrow> store \<Rightarrow> pydict \<Rightarrow> call \<Rightarrow> bool" where
  "call_ok self ns k h0 n c \<longleftrightarrow>
     c_store c ! ns = n
     \<and> c_kwargs c = merged ns n k
     \<and> c_store c ! callable_kwargs self = c_kwargs c
     \<and> c_args c = callable_args self
     \<and> length (c_store c) = length h0
     \<and> (\<forall>a. a \<noteq> callable_kwargs self \<longrightarrow> a \<noteq> ns \<longrightarrow> c_store c ! a = h0 ! a)"

definition at_end_tag ::
  "XMLParser \<Rightarrow> addr \<Rightarrow> pydict \<Rightarrow> session \<Rightarrow> sax list \<Rightarrow> call \<Rightarrow> bool" where
  "at_end_tag self ns k s toks c \<longleftrightarrow>
     (\<exists>pre post. toks = pre @ EndElement # post
        \<and> call_ok self ns k (heap s) (start_ns_all (declared pre) (heap s ! ns)) c)"

text \<open>
  A document whose root declares the prefix \<open>p\<close> and whose second child declares \<open>q\<close>,
  a document without declarations, and the session of a parser that has not read
  anything yet, on a given store.
\<close>

definition ex_toks :: "sax list" where
  "ex_toks = [StartElement ''root'' [(''p'', ''u1'')] [], StartElement ''a'' [] [], EndElement,
              StartElement ''b'' [(''q'', ''u2'')] [], EndElement, EndElement]"

definition ex_start :: "store \<Rightarrow> session" where
  "ex_start h = \<lparr>xml_tree = iterparse_new None, heap = h,
     os = \<lparr>files = (\<lambda>p. None), stdout = []\<rparr>, calls = []\<rparr>"

definition ex_plain :: "sax list" where
  "ex_plain = [StartElement ''root'' [] [], EndElement]"

text \<open>
  A library for the examples: its tokenizer answers with a given token sequence, and it
  refuses to compile schema bytes that do not start with \<^verbatim>\<open><\<close>. Arguments with a handler
  that does nothing, and a world whose only file is the input.
\<close>

definition ex_lib :: "sax list \<Rightarrow> etree" where
  "ex_lib toks =
     \<lparr>XMLSchema = (\<lambda>b. if take 1 b = ''<'' then None else Some XMLSyntaxError),
      tokens = (\<lambda>content dtd sch. toks)\<rparr>"

definition ex_args :: "addr option \<Rightarrow> string option \<Rightarrow> arguments" where
  "ex_args kwargs sch =
     \<lparr>a_xml_file = ''in.xml'', a_python_callable = Some (\<lambda>el args kw h w. Inr w),
      a_callable_args = None, a_callable_kwargs = kwargs, a_tag = None,
      a_dtd_validation = False, a_schema = sch\<rparr>"

definition ex_world :: "string \<Rightarrow> world" where
  "ex_world content = \<lparr>files = [''in.xml'' \<mapsto> File content], stdout = []\<rparr>"

text \<open>
  The document of the example in the specification,
  \<^verbatim>\<open><root><r><c1>A</c1><c2>B</c2></r><r><c1>C</c1><c2>D</c2></r></root>\<close>, and the same
  document with a default namespace \<open>u\<close> declared on its root. \<open>csv_run\<close> is a session with
  the handler of the repository, the keyword dictionary of the script
  (\<^verbatim>\<open>{'csv_file': ...}\<close>) and a tag filter.
\<close>

definition ex_doc :: xml where
  "ex_doc = Elem ''root'' [] [] None
     [Elem ''r'' [] [] None [Elem ''c1'' [] [] (Some ''A'') [], Elem ''c2'' [] [] (Some ''B'') []],
      Elem ''r'' [] [] None [Elem ''c1'' [] [] (Some ''C'') [], Elem ''c2'' [] [] (Some ''D'') []]]"

definition ex_doc_ns :: xml where
  "ex_doc_ns = Elem ''{u}root'' [([], ''u'')] [] None
     [Elem ''{u}r'' [] [] None
        [Elem ''{u}c1'' [] [] (Some ''A'') [], Elem ''{u}c2'' [] [] (Some ''B'') []],
      Elem ''{u}r'' [] [] None
        [Elem ''{u}c1'' [] [] (Some ''C'') [], Elem ''{u}c2'' [] [] (Some ''D'') []]]"

definition csv_args :: "string \<Rightarrow> arguments" where
  "csv_args t =
     \<lparr>a_xml_file = ''in.xml'', a_python_callable = Some convert_to_csv,
      a_callable_args = None, a_callable_kwargs = Some 0, a_tag = Some t,
      a_dtd_validation = False, a_schema = None\<rparr>"

definition csv_run :: "xml \<Rightarrow> string \<Rightarrow> string \<Rightarrow> (py_error \<times> session) + (XMLParser \<times> session)" where
  "csv_run d content t =
     XMLParser_init (ex_lib (tokens_of d)) (csv_args t) [[(''csv_file'', PStr ''out.csv'')]]
       (ex_world content)"


section \<open>The nodes reachable from the document\<close>






section \<open>More example inputs\<close>








section \<open>Properties of the namespace dictionary\<close>

lemma keys_start_ns: "fst ` set (start_ns e ns) = {ns_key (fst e)} \<union> fst ` set ns"
  by (cases e) (simp add: start_ns_def dom_update)

lemma keys_start_ns_all: "fst ` set ns \<subseteq> fst ` set (start_ns_all es ns)"
proof (induction es arbitrary: ns)
  case Nil
  show ?case by simp
next
  case (Cons e es)
  have "fst ` set ns \<subseteq> fst ` set (start_ns e ns)"
    by (auto simp: keys_start_ns)
  also have "\<dots> \<subseteq> fst ` set (start_ns_all es (start_ns e ns))"
    by (rule Cons.IH)
  finally show ?case by simp
qed

lemma map_of_start_ns:
  "map_of (start_ns (p, u) ns) k = (if k = ns_key p then Some (PStr u) else map_of ns k)"
  by (simp add: start_ns_def update_conv')

lemma start_ns_all_other:
  "\<forall>e \<in> set es. ns_key (fst e) \<noteq> k \<Longrightarrow> map_of (start_ns_all es ns) k = map_of ns k"
proof (induction es arbitrary: ns)
  case Nil
  show ?case by simp
next
  case (Cons e es)
  obtain p u where e: "e = (p, u)" by (cases e)
  from Cons.prems have "ns_key p \<noteq> k" and rest: "\<forall>e \<in> set es. ns_key (fst e) \<noteq> k"
    by (auto simp: e)
  then show ?case
    by (simp add: e Cons.IH [OF rest] map_of_start_ns)
qed

lemma start_ns_all_append:
  "start_ns_all (xs @ ys) ns = start_ns_all ys (start_ns_all xs ns)"
  by (induction xs arbitrary: ns) auto

lemma last_event_under_key:
  assumes later: "\<forall>e \<in> set ys. ns_key (fst e) \<noteq> ns_key p"
  shows "map_of (start_ns_all (xs @ (p, u) # ys) ns) (ns_key p) = Some (PStr u)"
proof -
  have "map_of (start_ns_all (xs @ (p, u) # ys) ns) (ns_key p)
      = map_of (start_ns_all ys (start_ns (p, u) (start_ns_all xs ns))) (ns_key p)"
    by (simp add: start_ns_all_append)
  also have "\<dots> = map_of (start_ns (p, u) (start_ns_all xs ns)) (ns_key p)"
    by (rule start_ns_all_other [OF later])
  also have "\<dots> = Some (PStr u)"
    by (simp add: map_of_start_ns)
  finally show ?thesis .
qed

text \<open>
  C7, as the specification words it, does not hold in its last part: the dictionary
  is keyed by the stored key, not by the prefix, and the empty prefix and the prefix
  \<^verbatim>\<open>ns\<close> share the key \<^verbatim>\<open>ns\<close>. In the example the prefix \<^verbatim>\<open>ns\<close> is observed twice, the
  last time with the URI \<open>x2\<close>; a later declaration of the empty prefix replaces it, and
  the dictionary holds \<open>y\<close> under \<^verbatim>\<open>ns\<close>.
\<close>

theorem namespaces_last_writer_counterexample:
  "start_ns_all [(''ns'', ''x1''), (''ns'', ''x2''), ([], ''y'')] [] = [(''ns'', PStr ''y'')]
   \<and> map_of (start_ns_all [(''ns'', ''x1''), (''ns'', ''x2''), ([], ''y'')] []) ''ns''
       \<noteq> Some (PStr ''x2'')"
  by (simp add: start_ns_def ns_key_def)

text \<open>
  C7, amended. The namespace dictionary only grows. Whatever sequence of \<^verbatim>\<open>start-ns\<close>
  events is applied, every key that was present is still present, and the URI under a
  key stays as it was as long as no event is stored under that key; an empty prefix is
  stored under the key \<^verbatim>\<open>ns\<close>; and after an event the dictionary holds its URI under its
  key until a later event is stored under the same key: the dictionary holds the URI of
  the last event stored under that key. For a prefix that is neither empty nor \<^verbatim>\<open>ns\<close>
  the key is the prefix, and the dictionary holds the URI of the last occurrence of the
  prefix.
\<close>

theorem namespaces_only_grow:
  "(\<forall>k. k \<in> fst ` set ns \<longrightarrow> k \<in> fst ` set (start_ns_all es ns))
   \<and> (\<forall>k. (\<forall>e \<in> set es. ns_key (fst e) \<noteq> k) \<longrightarrow>
          map_of (start_ns_all es ns) k = map_of ns k)
   \<and> map_of (start_ns ([], u) ns) ''ns'' = Some (PStr u)
   \<and> ((\<forall>e \<in> set ys. ns_key (fst e) \<noteq> ns_key p) \<longrightarrow>
        map_of (start_ns_all (xs @ (p, u) # ys) ns) (ns_key p) = Some (PStr u))
   \<and> (p \<noteq> [] \<and> p \<noteq> ''ns'' \<and> (\<forall>e \<in> set ys. fst e \<noteq> p) \<longrightarrow>
        map_of (start_ns_all (xs @ (p, u) # ys) ns) p = Some (PStr u))"
proof (intro conjI allI impI)
  fix k assume "k \<in> fst ` set ns"
  with keys_start_ns_all [of ns es] show "k \<in> fst ` set (start_ns_all es ns)"
    by blast
next
  fix k assume "\<forall>e \<in> set es. ns_key (fst e) \<noteq> k"
  then show "map_of (start_ns_all es ns) k = map_of ns k"
    by (rule start_ns_all_other)
next
  show "map_of (start_ns ([], u) ns) ''ns'' = Some (PStr u)"
    by (simp add: map_of_start_ns ns_key_def)
next
  assume later: "\<forall>e \<in> set ys. ns_key (fst e) \<noteq> ns_key p"
  then show "map_of (start_ns_all (xs @ (p, u) # ys) ns) (ns_key p) = Some (PStr u)"
    by (rule last_event_under_key)
next
  assume a: "p \<noteq> [] \<and> p \<noteq> ''ns'' \<and> (\<forall>e \<in> set ys. fst e \<noteq> p)"
  then have k: "ns_key p = p"
    by (simp add: ns_key_def)
  from a have "\<forall>e \<in> set ys. ns_key (fst e) \<noteq> ns_key p"
    by (auto simp: ns_key_def)
  then have "map_of (start_ns_all (xs @ (p, u) # ys) ns) (ns_key p) = Some (PStr u)"
    by (rule last_event_under_key)
  then show "map_of (start_ns_all (xs @ (p, u) # ys) ns) p = Some (PStr u)"
    by (simp only: k)
qed

theorem namespaces_only_grow_witness:
  "''a'' \<in> fst ` set [(''a'', PStr ''u0'')]
   \<and> ''a'' \<in> fst ` set (start_ns_all [([], ''u1''), (''b'', ''u2'')] [(''a'', PStr ''u0'')])
   \<and> list_all (\<lambda>e. ns_key (fst e) \<noteq> ''a'') [([], ''u1''), (''b'', ''u2'')]
   \<and> map_of (start_ns_all [([], ''u1''), (''b'', ''u2'')] [(''a'', PStr ''u0'')]) ''a''
        = Some (PStr ''u0'')
   \<and> map_of (start_ns ([], ''u3'') [(''a'', PStr ''u0'')]) ''ns'' = Some (PStr ''u3'')
   \<and> list_all (\<lambda>e. ns_key (fst e) \<noteq> ns_key ''b'') [(''a'', ''u4'')]
   \<and> ''b'' \<noteq> [] \<and> ''b'' \<noteq> ''ns'' \<and> list_all (\<lambda>e. fst e \<noteq> ''b'') [(''a'', ''u4'')]
   \<and> map_of (start_ns_all ([(''b'', ''u1'')] @ (''b'', ''u3'') # [(''a'', ''u4'')]) [(''a'', PStr ''u0'')])
        ''b'' = Some (PStr ''u3'')"
  using namespaces_only_grow [of "[(''a'', PStr ''u0'')]" "[([], ''u1''), (''b'', ''u2'')]" "''u3''"
      "[(''a'', ''u4'')]" "''b''" "[(''b'', ''u1'')]"]
  by (simp add: ns_key_def)

section \<open>Properties of the cleanup\<close>

lemma delete_file_os_remove:
  "delete_file os_remove file w =
     Inr (case files w file of
            None \<Rightarrow> w
          | Some Dir \<Rightarrow> w\<lparr>stdout := stdout w @ [''Is a directory.'']\<rparr>
          | Some (File c) \<Rightarrow>
              w\<lparr>files := (files w)(file := None), stdout := stdout w @ [''File deleted: '' @ file @ ''.'']\<rparr>)"
  by (simp add: delete_file_def os_remove_def ENOENT_def EISDIR_def split: option.splits fsnode.splits)

text \<open>
  C9. \<^verbatim>\<open>delete_file\<close> never raises for an error of the operating system: whatever
  \<^verbatim>\<open>OSError\<close> the removal answers with, the call returns, the files are as they were, and
  the error is printed unless it is "no such file". Deleting a path that does not exist
  returns with nothing changed and nothing printed, and deleting twice leaves the files
  as deleting once does.
\<close>

theorem delete_file_never_raises:
  "(\<forall>errno msg. remove file (files w) = Inl (OSError errno msg) \<longrightarrow>
       delete_file remove file w
         = Inr (if errno = ENOENT then w else w\<lparr>stdout := stdout w @ [msg @ ''.'']\<rparr>))
   \<and> (files w file = None \<longrightarrow> delete_file os_remove file w = Inr w)
   \<and> (\<exists>w1 w2. delete_file os_remove file w = Inr w1
          \<and> delete_file os_remove file w1 = Inr w2 \<and> files w2 = files w1)"
proof (intro conjI allI impI)
  fix errno msg
  assume "remove file (files w) = Inl (OSError errno msg)"
  then show "delete_file remove file w
      = Inr (if errno = ENOENT then w else w\<lparr>stdout := stdout w @ [msg @ ''.'']\<rparr>)"
    by (simp add: delete_file_def)
next
  assume "files w file = None"
  then show "delete_file os_remove file w = Inr w"
    by (simp add: delete_file_os_remove)
next
  show "\<exists>w1 w2. delete_file os_remove file w = Inr w1
          \<and> delete_file os_remove file w1 = Inr w2 \<and> files w2 = files w1"
    by (cases "files w file") (auto simp: delete_file_os_remove split: fsnode.splits)
qed

theorem delete_file_never_raises_witness:
  "os_remove ''d'' (files \<lparr>files = (\<lambda>p. if p = ''d'' then Some Dir else None), stdout = []\<rparr>)
     = Inl (OSError EISDIR ''Is a directory'')
   \<and> delete_file os_remove ''d'' \<lparr>files = (\<lambda>p. if p = ''d'' then Some Dir else None), stdout = []\<rparr>
     = Inr \<lparr>files = (\<lambda>p. if p = ''d'' then Some Dir else None), stdout = [''Is a directory.'']\<rparr>
   \<and> files \<lparr>files = (\<lambda>p. None), stdout = []\<rparr> ''out.csv'' = None
   \<and> delete_file os_remove ''out.csv'' \<lparr>files = (\<lambda>p. None), stdout = []\<rparr>
     = Inr \<lparr>files = (\<lambda>p. None), stdout = []\<rparr>"
  using delete_file_never_raises [of os_remove "''d''"
      "\<lparr>files = (\<lambda>p. if p = ''d'' then Some Dir else None), stdout = []\<rparr>"]
    delete_file_never_raises [of os_remove "''out.csv''" "\<lparr>files = (\<lambda>p. None), stdout = []\<rparr>"]
  by (simp add: os_remove_def EISDIR_def ENOENT_def)

section \<open>Trees and addresses\<close>

lemma node_collapse [simp]:
  "Node (el_id t) (el_tag t) (el_attrib t) (el_text t) (el_children t) = t"
  by (cases t) simp

lemma update_at_id: "update_at p (\<lambda>n. n) t = t"
  by (induction p arbitrary: t) (auto simp: list_update_same_conv)

lemma update_at_comp: "update_at p f (update_at p g t) = update_at p (\<lambda>n. f (g n)) t"
proof (induction p arbitrary: t)
  case Nil
  show ?case by simp
next
  case (Cons i p)
  show ?case
  proof (cases "i < length (el_children t)")
    case True
    then show ?thesis by (simp add: Cons.IH)
  next
    case False
    then show ?thesis by (simp add: list_update_beyond)
  qed
qed

lemma update_at_append: "update_at (p @ q) f t = update_at p (update_at q f) t"
  by (induction p arbitrary: t) auto

lemma update_at_cong:
  "subtree_at p t = Some n \<Longrightarrow> f n = g n \<Longrightarrow> update_at p f t = update_at p g t"
proof (induction p arbitrary: t)
  case Nil
  then show ?case by simp
next
  case (Cons i p)
  then show ?case by (auto split: if_splits)
qed

lemma subtree_at_append:
  "subtree_at (p @ q) t = (case subtree_at p t of None \<Rightarrow> None | Some n \<Rightarrow> subtree_at q n)"
  by (induction p arbitrary: t) auto

lemma subtree_at_update_at:
  "subtree_at p t = Some n \<Longrightarrow> subtree_at p (update_at p f t) = Some (f n)"
proof (induction p arbitrary: t)
  case Nil
  then show ?case by simp
next
  case (Cons i p)
  then show ?case by (auto split: if_splits)
qed

lemma subtree_at_update_at_valid:
  "subtree_at p t \<noteq> None \<Longrightarrow> subtree_at p (update_at p f t) \<noteq> None"
  by (auto simp: subtree_at_update_at)

section \<open>Pruning is discarding the left siblings\<close>

lemma drop_previous_eq:
  "drop_previous (Some parent) k t = Inr (update_at parent (drop_children k) t)"
proof (induction k arbitrary: t)
  case 0
  show ?case by (simp add: drop_children_def update_at_id)
next
  case (Suc k)
  have "drop_children k (del_first n) = drop_children (Suc k) n" for n
    by (simp add: drop_children_def del_first_def drop_Suc)
  then show ?case
    by (simp add: Suc.IH update_at_comp)
qed

lemma for_ancestors_eq:
  "subtree_at (parent @ p) t \<noteq> None \<Longrightarrow>
   for_ancestors (Some parent) p t = Inr (update_at parent (keep_right p) t)"
proof (induction p arbitrary: parent t)
  case Nil
  have "keep_right [] = (\<lambda>n. n)" by (rule ext) simp
  then show ?case by (simp add: update_at_id)
next
  case (Cons i rest)
  from Cons.prems obtain n where n: "subtree_at parent t = Some n"
    and i: "i < length (el_children n)"
    and rest: "subtree_at rest (el_children n ! i) \<noteq> None"
    by (auto simp: subtree_at_append split: option.splits if_splits)
  let ?t1 = "update_at parent (drop_children i) t"
  have v: "subtree_at ((parent @ [0]) @ rest) ?t1 \<noteq> None"
    using n i rest by (simp add: subtree_at_append subtree_at_update_at drop_children_def)
  have "for_ancestors (Some parent) (i # rest) t = for_ancestors (Some (parent @ [0])) rest ?t1"
    by (simp add: drop_previous_eq)
  also have "\<dots> = Inr (update_at (parent @ [0]) (keep_right rest) ?t1)"
    by (rule Cons.IH [OF v])
  also have "update_at (parent @ [0]) (keep_right rest) ?t1
      = update_at parent (\<lambda>n. update_at [0] (keep_right rest) (drop_children i n)) t"
    by (simp add: update_at_append update_at_comp)
  also have "\<dots> = update_at parent (keep_right (i # rest)) t"
  proof (rule update_at_cong [OF n])
    show "update_at [0] (keep_right rest) (drop_children i n) = keep_right (i # rest) n"
      using i by (simp add: drop_children_def Cons_nth_drop_Suc [symmetric])
  qed
  finally show ?case .
qed

lemma for_ancestors_root:
  assumes "subtree_at (0 # rest) t \<noteq> None"
  shows "for_ancestors None (0 # rest) t = Inr (keep_right (0 # rest) t)"
proof -
  from assms have c: "el_children t \<noteq> []" and v: "subtree_at ([0] @ rest) t \<noteq> None"
    by (auto split: if_splits)
  have "for_ancestors None (0 # rest) t = for_ancestors (Some [0]) rest t"
    by simp
  also have "\<dots> = Inr (update_at [0] (keep_right rest) t)"
    using v by (rule for_ancestors_eq)
  also have "update_at [0] (keep_right rest) t = keep_right (0 # rest) t"
    using c by (cases "el_children t") simp_all
  finally show ?thesis .
qed

lemma keep_right_clear:
  "subtree_at p t \<noteq> None \<Longrightarrow> keep_right p (update_at p clear t) = discard_left p t"
proof (induction p arbitrary: t)
  case Nil
  show ?case by simp
next
  case (Cons i p)
  then show ?case by (auto split: if_splits)
qed

lemma prune_eq_discard_left:
  assumes "subtree_at (0 # rest) doc \<noteq> None"
  shows "prune (0 # rest) doc = Inr (discard_left (0 # rest) doc)"
proof -
  from assms have "subtree_at (0 # rest) (update_at (0 # rest) clear doc) \<noteq> None"
    by (rule subtree_at_update_at_valid)
  then have "prune (0 # rest) doc = Inr (keep_right (0 # rest) (update_at (0 # rest) clear doc))"
    unfolding prune_def by (rule for_ancestors_root)
  also have "keep_right (0 # rest) (update_at (0 # rest) clear doc) = discard_left (0 # rest) doc"
    using assms by (rule keep_right_clear)
  finally show ?thesis .
qed

lemma prune_raises:
  "prune (Suc i # rest) doc = Inl (TypeError, update_at (Suc i # rest) clear doc)"
  by (simp add: prune_def)

lemma ex_loop_body:
  "loop_body ex_self 1 (End [0, 1, 0]) (ex_session ex_tree 2)
   = Inr ((ex_session ex_tree 2)
       \<lparr>heap := [[], []],
        calls := [\<lparr>c_element = Node 4 ''y'' [(''k'', ''v'')] (Some ''t'') [], c_args = [],
                   c_kwargs = [], c_store = [[], []]\<rparr>],
        os := \<lparr>files = (\<lambda>p. None), stdout = []\<rparr>,
        xml_tree := \<lparr>ip_tag = None,
          ip_doc = Node 0 ''#document'' [] None
            [Node 1 ''root'' [] None [Node 3 ''b'' [] None [Node 4 ''y'' [] None []]]],
          ip_depth = 2, ip_next = 5\<rparr>\<rparr>)"
  by (simp add: loop_body_def ex_self_def ex_session_def ex_tree_def Let_def prune_def clear_def
      del_first_def)

lemma for_tokens_EndElement:
  assumes "0 < ip_depth (xml_tree s)"
  shows "for_tokens self namespaces [EndElement] s =
     (if tag_matches (ip_tag (xml_tree s))
           (el_tag (node_at (rightmost (ip_depth (xml_tree s)) (ip_doc (xml_tree s)))
              (ip_doc (xml_tree s))))
      then loop_body self namespaces
             (End (rightmost (ip_depth (xml_tree s)) (ip_doc (xml_tree s))))
             (s\<lparr>xml_tree := (xml_tree s)\<lparr>ip_depth := ip_depth (xml_tree s) - 1\<rparr>\<rparr>)
      else Inr (s\<lparr>xml_tree := (xml_tree s)\<lparr>ip_depth := ip_depth (xml_tree s) - 1\<rparr>\<rparr>))"
  using assms by (simp add: feed_def split: sum.splits)

text \<open>
  C3, as the specification words it, does not hold, in two places. The loop does not
  delete the first child of the ancestor that has a previous sibling, it deletes the
  first child of that ancestor's parent: in the example tree the ancestor \<open>b\<close> has a
  previous sibling and its first child is \<open>y\<close>; after pruning at \<open>y\<close> the root, which has
  no previous sibling, has lost its first child \<open>a\<close>, and \<open>b\<close> still has its first child.
  And nothing is pruned at the end of an element that does not match the tag filter:
  with the filter \<open>r\<close>, the end tag of \<open>b\<close> calls no handler and leaves the tree as it is,
  \<open>b\<close> with its child and with \<open>a\<close> on its left.
\<close>

theorem pruning_claim_counterexample:
  "el_children (node_at [0] ex_tree) ! 0 = Node 2 ''a'' [] None []
   \<and> map el_id (el_children (node_at [0, 1] ex_tree)) = [4]
   \<and> prune [0, 1, 0] ex_tree
       = Inr (Node 0 ''#document'' [] None
           [Node 1 ''root'' [] None [Node 3 ''b'' [] None [Node 4 ''y'' [] None []]]])
   \<and> el_tag (node_at (rightmost 2 ex_tree) ex_tree) = ''b''
   \<and> for_tokens ex_self 1 [EndElement] (ex_filtered ex_tree 2)
       = Inr ((ex_filtered ex_tree 2)
           \<lparr>xml_tree := \<lparr>ip_tag = Some ''r'', ip_doc = ex_tree, ip_depth = 1, ip_next = 5\<rparr>\<rparr>)"
  by (simp add: prune_def ex_tree_def clear_def del_first_def ex_filtered_def feed_def
      tag_matches_def eval_nat_numeral)

text \<open>
  C3, amended. The loop receives the end tags of the elements that match the tag filter;
  at the end tag of an element that does not match, no handler is called and the tree
  stays as it is. At the end tag of an element that matches, the handler is called, and
  when it has returned and the root element has no previous sibling (it is the first
  child of the document), the pruning returns as well and the tree is the old tree with
  the element emptied (children, text, attributes) and then, for each element on the way
  from the root to the element, that element included, the first child of its parent
  deleted as long as it has a previous sibling. The result is the old tree in which
  every element on that way has lost the siblings on its left and nothing else.
\<close>

theorem pruning_discards_left_siblings:
  assumes valid: "subtree_at (0 # rest) (ip_doc (xml_tree s)) \<noteq> None"
  shows "prune (0 # rest) (ip_doc (xml_tree s))
       = Inr (discard_left (0 # rest) (ip_doc (xml_tree s)))
     \<and> (\<exists>c. calls (final (loop_body self namespaces (End (0 # rest)) s)) = calls s @ [c]
          \<and> (isl (loop_body self namespaces (End (0 # rest)) s) \<longleftrightarrow>
               isl (python_callable self (c_element c) (c_args c) (c_kwargs c) (c_store c) (os s))))
     \<and> (\<forall>s1. loop_body self namespaces (End (0 # rest)) s = Inr s1 \<longrightarrow>
          ip_doc (xml_tree s1) = discard_left (0 # rest) (ip_doc (xml_tree s)))
     \<and> (0 < ip_depth (xml_tree s)
          \<and> rightmost (ip_depth (xml_tree s)) (ip_doc (xml_tree s)) = 0 # rest \<longrightarrow>
        for_tokens self namespaces [EndElement] s =
          (if tag_matches (ip_tag (xml_tree s)) (el_tag (node_at (0 # rest) (ip_doc (xml_tree s))))
           then loop_body self namespaces (End (0 # rest))
                  (s\<lparr>xml_tree := (xml_tree s)\<lparr>ip_depth := ip_depth (xml_tree s) - 1\<rparr>\<rparr>)
           else Inr (s\<lparr>xml_tree := (xml_tree s)\<lparr>ip_depth := ip_depth (xml_tree s) - 1\<rparr>\<rparr>)))"
proof (intro conjI allI impI)
  show p: "prune (0 # rest) (ip_doc (xml_tree s))
       = Inr (discard_left (0 # rest) (ip_doc (xml_tree s)))"
    using valid by (rule prune_eq_discard_left)
  show "\<exists>c. calls (final (loop_body self namespaces (End (0 # rest)) s)) = calls s @ [c]
          \<and> (isl (loop_body self namespaces (End (0 # rest)) s) \<longleftrightarrow>
               isl (python_callable self (c_element c) (c_args c) (c_kwargs c) (c_store c) (os s)))"
    by (auto simp: loop_body_def Let_def p final_def split: sum.splits prod.splits)
  show "ip_doc (xml_tree s1) = discard_left (0 # rest) (ip_doc (xml_tree s))"
    if "loop_body self namespaces (End (0 # rest)) s = Inr s1" for s1
    using that by (auto simp: loop_body_def Let_def p split: sum.splits prod.splits)
  show "for_tokens self namespaces [EndElement] s =
          (if tag_matches (ip_tag (xml_tree s)) (el_tag (node_at (0 # rest) (ip_doc (xml_tree s))))
           then loop_body self namespaces (End (0 # rest))
                  (s\<lparr>xml_tree := (xml_tree s)\<lparr>ip_depth := ip_depth (xml_tree s) - 1\<rparr>\<rparr>)
           else Inr (s\<lparr>xml_tree := (xml_tree s)\<lparr>ip_depth := ip_depth (xml_tree s) - 1\<rparr>\<rparr>))"
    if "0 < ip_depth (xml_tree s)
          \<and> rightmost (ip_depth (xml_tree s)) (ip_doc (xml_tree s)) = 0 # rest"
    using that for_tokens_EndElement [of s self namespaces] by simp
qed

theorem pruning_discards_left_siblings_witness:
  "subtree_at (0 # [1, 0]) (ip_doc (xml_tree (ex_session ex_tree 2))) \<noteq> None
   \<and> (\<exists>s1. loop_body ex_self 1 (End (0 # [1, 0])) (ex_session ex_tree 2) = Inr s1
        \<and> ip_doc (xml_tree s1) = discard_left (0 # [1, 0]) (ip_doc (xml_tree (ex_session ex_tree 2))))
   \<and> discard_left (0 # [1, 0]) ex_tree =
       Node 0 ''#document'' [] None
         [Node 1 ''root'' [] None [Node 3 ''b'' [] None [Node 4 ''y'' [] None []]]]
   \<and> subtree_at (0 # [1]) (ip_doc (xml_tree (ex_session ex_tree 1))) \<noteq> None
   \<and> prune (0 # [1]) (ip_doc (xml_tree (ex_session ex_tree 1)))
       = Inr (Node 0 ''#document'' [] None [Node 1 ''root'' [] None [Node 3 ''b'' [] None []]])
   \<and> 0 < ip_depth (xml_tree (ex_filtered ex_tree 3))
   \<and> rightmost (ip_depth (xml_tree (ex_filtered ex_tree 3))) (ip_doc (xml_tree (ex_filtered ex_tree 3)))
       = 0 # [1, 0]
   \<and> for_tokens ex_self 1 [EndElement] (ex_filtered ex_tree 3)
       = Inr ((ex_filtered ex_tree 3)
           \<lparr>xml_tree := \<lparr>ip_tag = Some ''r'', ip_doc = ex_tree, ip_depth = 2, ip_next = 5\<rparr>\<rparr>)"
proof -
  have v: "subtree_at (0 # [1, 0]) (ip_doc (xml_tree (ex_session ex_tree 2))) \<noteq> None"
    by (simp add: ex_session_def ex_tree_def)
  have v': "subtree_at (0 # [1, 0]) (ip_doc (xml_tree (ex_filtered ex_tree 3))) \<noteq> None"
    by (simp add: ex_filtered_def ex_tree_def)
  have v'': "subtree_at (0 # [1]) (ip_doc (xml_tree (ex_session ex_tree 1))) \<noteq> None"
    by (simp add: ex_session_def ex_tree_def)
  have d: "discard_left (0 # [1, 0]) ex_tree =
       Node 0 ''#document'' [] None
         [Node 1 ''root'' [] None [Node 3 ''b'' [] None [Node 4 ''y'' [] None []]]]"
    by (simp add: ex_tree_def clear_def)
  have d'': "discard_left (0 # [1]) (ip_doc (xml_tree (ex_session ex_tree 1))) =
       Node 0 ''#document'' [] None [Node 1 ''root'' [] None [Node 3 ''b'' [] None []]]"
    by (simp add: ex_session_def ex_tree_def clear_def)
  have e: "0 < ip_depth (xml_tree (ex_filtered ex_tree 3))"
    and r: "rightmost (ip_depth (xml_tree (ex_filtered ex_tree 3)))
        (ip_doc (xml_tree (ex_filtered ex_tree 3))) = 0 # [1, 0]"
    by (simp_all add: ex_filtered_def ex_tree_def eval_nat_numeral)
  have lb: "loop_body ex_self 1 (End (0 # [1, 0])) (ex_session ex_tree 2)
      = Inr (final (loop_body ex_self 1 (End (0 # [1, 0])) (ex_session ex_tree 2)))"
    using ex_loop_body by (simp add: final_def)
  note t1 = pruning_discards_left_siblings [OF v, of ex_self 1]
  note t2 = pruning_discards_left_siblings [OF v', of ex_self 1]
  note t3 = pruning_discards_left_siblings [OF v'', of ex_self 1, THEN conjunct1]
  from t1 lb have a: "\<exists>s1. loop_body ex_self 1 (End (0 # [1, 0])) (ex_session ex_tree 2) = Inr s1
        \<and> ip_doc (xml_tree s1) = discard_left (0 # [1, 0]) (ip_doc (xml_tree (ex_session ex_tree 2)))"
    by blast
  from t3 have p: "prune (0 # [1]) (ip_doc (xml_tree (ex_session ex_tree 1)))
       = Inr (Node 0 ''#document'' [] None [Node 1 ''root'' [] None [Node 3 ''b'' [] None []]])"
    by (simp only: d'')
  from t2 e r have "for_tokens ex_self 1 [EndElement] (ex_filtered ex_tree 3) =
      (if tag_matches (ip_tag (xml_tree (ex_filtered ex_tree 3)))
            (el_tag (node_at (0 # [1, 0]) (ip_doc (xml_tree (ex_filtered ex_tree 3)))))
       then loop_body ex_self 1 (End (0 # [1, 0]))
              ((ex_filtered ex_tree 3)\<lparr>xml_tree := (xml_tree (ex_filtered ex_tree 3))
                 \<lparr>ip_depth := ip_depth (xml_tree (ex_filtered ex_tree 3)) - 1\<rparr>\<rparr>)
       else Inr ((ex_filtered ex_tree 3)\<lparr>xml_tree := (xml_tree (ex_filtered ex_tree 3))
                 \<lparr>ip_depth := ip_depth (xml_tree (ex_filtered ex_tree 3)) - 1\<rparr>\<rparr>))"
    by blast
  then have f: "for_tokens ex_self 1 [EndElement] (ex_filtered ex_tree 3)
       = Inr ((ex_filtered ex_tree 3)
           \<lparr>xml_tree := \<lparr>ip_tag = Some ''r'', ip_doc = ex_tree, ip_depth = 2, ip_next = 5\<rparr>\<rparr>)"
    by (simp add: ex_filtered_def ex_tree_def tag_matches_def)
  from v a d v'' p e r f show ?thesis by (intro conjI)
qed

section \<open>The store during a run\<close>

lemma final_simps [simp]: "final (Inl (e, s)) = s" "final (Inr s) = s"
  by (simp_all add: final_def)

lemma declared_append: "declared (xs @ ys) = declared xs @ declared ys"
  by (induction xs rule: declared.induct) auto

lemma start_ns_nonempty: "start_ns e n \<noteq> []"
  by (cases e) (simp add: start_ns_def)

lemma start_ns_all_nonempty: "n \<noteq> [] \<Longrightarrow> start_ns_all es n \<noteq> []"
  by (induction es arbitrary: n) (auto simp: start_ns_nonempty)

lemma start_ns_all_Nil_iff: "start_ns_all es n = [] \<longleftrightarrow> es = [] \<and> n = []"
  by (cases es) (auto simp: start_ns_nonempty start_ns_all_nonempty)

lemma for_events_StartNs:
  "namespaces < length (heap s) \<Longrightarrow>
   for_events self namespaces (map StartNs es) s
     = Inr (s\<lparr>heap := (heap s)[namespaces := start_ns_all es (heap s ! namespaces)]\<rparr>)"
proof (induction es arbitrary: s)
  case Nil
  then show ?case by simp
next
  case (Cons e es)
  then show ?case by (simp add: loop_body_def)
qed

lemma feed_cases:
  assumes "feed tok ip = Inr (evs, ip1)"
  obtains (start) t ns at where "tok = StartElement t ns at" "evs = map StartNs ns"
  | (chars) x where "tok = Characters x" "evs = []"
  | (skip) "tok = EndElement" "evs = []"
  | (dispatch) p where "tok = EndElement" "evs = [End p]" "p = rightmost (ip_depth ip) (ip_doc ip)"
  | (comment) x where "tok = Comment x" "evs = []"
  | (pi) x y where "tok = ProcessingInstruction x y" "evs = []"
  using assms by (cases tok) (auto simp: feed_def split: if_splits)

text \<open>One dispatch.\<close>

lemma loop_body_End:
  assumes "kw = callable_kwargs self"
  shows "\<exists>c. calls (final (loop_body self ns (End p) s)) = calls s @ [c]
     \<and> heap (final (loop_body self ns (End p) s))
         = (if heap s ! ns \<noteq> [] then (heap s)[kw := AList.update ''namespaces'' (PRef ns) (heap s ! kw)]
            else heap s)
     \<and> c_store c = heap (final (loop_body self ns (End p) s))
     \<and> c_kwargs c = c_store c ! kw
     \<and> c_args c = callable_args self
     \<and> c_element c = node_at p (ip_doc (xml_tree s))"
  using assms by (auto simp: loop_body_def Let_def split: sum.splits prod.splits)

lemma for_tokens_single:
  "for_tokens self ns (tok # toks) s =
     (case for_tokens self ns [tok] s of Inl x \<Rightarrow> Inl x | Inr s1 \<Rightarrow> for_tokens self ns toks s1)"
  by (simp split: sum.splits prod.splits)

lemma token_step:
  fixes self :: XMLParser and ns :: addr and tok :: sax and s :: session
  assumes ok: "kw_ok (callable_kwargs self) ns k (heap s)"
  defines "r \<equiv> for_tokens self ns [tok] s"
  shows "kw_ok (callable_kwargs self) ns k (heap (final r))
     \<and> length (heap (final r)) = length (heap s)
     \<and> (\<forall>a. a \<noteq> callable_kwargs self \<longrightarrow> a \<noteq> ns \<longrightarrow> heap (final r) ! a = heap s ! a)
     \<and> (calls (final r) = calls s
          \<or> (\<exists>c. tok = EndElement \<and> calls (final r) = calls s @ [c]
                \<and> call_ok self ns k (heap s) (heap s ! ns) c))
     \<and> (case r of Inl x \<Rightarrow> heap (final r) ! ns = heap s ! ns
          | Inr s1 \<Rightarrow> heap s1 ! ns = start_ns_all (declared [tok]) (heap s ! ns))
     \<and> (calls (final r) \<noteq> calls s \<longrightarrow>
           heap (final r) ! callable_kwargs self = merged ns (heap s ! ns) k)"
proof (cases "feed tok (xml_tree s)")
  case (Inl e)
  then have "r = Inl (e, s)" by (simp add: r_def)
  with ok show ?thesis by simp
next
  case (Inr x)
  obtain evs ip where x: "x = (evs, ip)" by (cases x)
  from ok have kw: "callable_kwargs self < length (heap s)" and ns: "ns < length (heap s)"
    and ne: "callable_kwargs self \<noteq> ns"
    by (auto simp: kw_ok_def)
  from Inr x have fd: "feed tok (xml_tree s) = Inr (evs, ip)" by simp
  then show ?thesis
  proof (cases rule: feed_cases)
    case (start t ds at)
    have r: "r = Inr (s\<lparr>xml_tree := ip, heap := (heap s)[ns := start_ns_all ds (heap s ! ns)]\<rparr>)"
      using fd start ns by (simp add: r_def for_events_StartNs)
    show ?thesis
      using ok by (auto simp: r start kw_ok_def start_ns_all_nonempty)
  next
    case (chars y)
    with fd have "r = Inr (s\<lparr>xml_tree := ip\<rparr>)" by (simp add: r_def)
    with ok chars show ?thesis by simp
  next
    case skip
    with fd have "r = Inr (s\<lparr>xml_tree := ip\<rparr>)" by (simp add: r_def)
    with ok skip show ?thesis by simp
  next
    case (comment y)
    with fd have "r = Inr (s\<lparr>xml_tree := ip\<rparr>)" by (simp add: r_def)
    with ok comment show ?thesis by simp
  next
    case (pi y z)
    with fd have "r = Inr (s\<lparr>xml_tree := ip\<rparr>)" by (simp add: r_def)
    with ok pi show ?thesis by simp
  next
    case (dispatch p)
    let ?s0 = "s\<lparr>xml_tree := ip\<rparr>"
    let ?b = "loop_body self ns (End p) ?s0"
    have fr: "final r = final ?b"
      using fd dispatch by (simp add: r_def split: sum.splits prod.splits)
    from loop_body_End [of "callable_kwargs self" self ns p ?s0]
    obtain c where c: "calls (final ?b) = calls s @ [c]"
      and h: "heap (final ?b) = (if heap s ! ns \<noteq> []
           then (heap s)[callable_kwargs self :=
                  AList.update ''namespaces'' (PRef ns) (heap s ! callable_kwargs self)]
           else heap s)"
      and cs: "c_store c = heap (final ?b)"
      and ck: "c_kwargs c = c_store c ! callable_kwargs self"
      and ca: "c_args c = callable_args self"
      by auto
    from ok have k: "heap s ! callable_kwargs self = k
        \<or> (heap s ! ns \<noteq> [] \<and> heap s ! callable_kwargs self = AList.update ''namespaces'' (PRef ns) k)"
      by (simp add: kw_ok_def)
    have hk: "heap (final ?b) ! callable_kwargs self = merged ns (heap s ! ns) k"
      using k kw by (auto simp: h merged_def)
    have hn: "heap (final ?b) ! ns = heap s ! ns"
      using ne by (simp add: h)
    have ok1: "kw_ok (callable_kwargs self) ns k (heap (final ?b))"
      using kw ns ne hk hn by (auto simp: kw_ok_def h merged_def)
    have call: "call_ok self ns k (heap s) (heap s ! ns) c"
      using hk hn ck ca by (auto simp: call_ok_def cs h)
    have last: "case r of Inl x \<Rightarrow> heap (final r) ! ns = heap s ! ns
        | Inr s1 \<Rightarrow> heap s1 ! ns = start_ns_all (declared [tok]) (heap s ! ns)"
      using fr hn dispatch by (cases r) (auto simp: final_def)
    have len: "length (heap (final ?b)) = length (heap s)"
      by (simp add: h)
    have frame: "\<forall>a. a \<noteq> callable_kwargs self \<longrightarrow> a \<noteq> ns \<longrightarrow> heap (final ?b) ! a = heap s ! a"
      by (simp add: h)
    from c have c': "calls (final r) = calls s @ [c]" by (simp add: fr)
    show ?thesis
      unfolding fr [symmetric] using ok1 call c' last len frame dispatch(1) hk
      by (simp add: fr)
  qed
qed

lemma call_ok_rebase:
  "call_ok self ns k h1 n c \<Longrightarrow> length h1 = length h0 \<Longrightarrow>
   (\<forall>a. a \<noteq> callable_kwargs self \<longrightarrow> a \<noteq> ns \<longrightarrow> h1 ! a = h0 ! a) \<Longrightarrow>
   call_ok self ns k h0 n c"
  by (simp add: call_ok_def)

lemma declared_Cons: "declared (tok # toks) = declared [tok] @ declared toks"
  using declared_append [of "[tok]" toks] by simp

lemma kw_ok_updated:
  assumes "kw_ok kw ns k h" and "h ! kw = AList.update ''namespaces'' (PRef ns) k"
  shows "kw_ok kw ns (AList.update ''namespaces'' (PRef ns) k) h"
  using assms by (simp add: kw_ok_def)

lemma kw_ok_updated_D:
  assumes "kw_ok kw ns (AList.update ''namespaces'' (PRef ns) k) h"
  shows "h ! kw = AList.update ''namespaces'' (PRef ns) k"
  using assms by (auto simp: kw_ok_def)

lemma run_calls:
  fixes self :: XMLParser and ns :: addr and toks :: "sax list" and s :: session
  assumes ok: "kw_ok (callable_kwargs self) ns k (heap s)"
  defines "r \<equiv> for_tokens self ns toks s"
  shows "kw_ok (callable_kwargs self) ns k (heap (final r))
     \<and> length (heap (final r)) = length (heap s)
     \<and> (\<forall>a. a \<noteq> callable_kwargs self \<longrightarrow> a \<noteq> ns \<longrightarrow> heap (final r) ! a = heap s ! a)
     \<and> (\<exists>new. calls (final r) = calls s @ new
           \<and> (\<forall>c \<in> set new. at_end_tag self ns k s toks c)
           \<and> (\<forall>c \<in> set new. c_store c ! ns \<noteq> [] \<longrightarrow>
                 heap (final r) ! callable_kwargs self = AList.update ''namespaces'' (PRef ns) k))
     \<and> (\<forall>s1. r = Inr s1 \<longrightarrow> heap s1 ! ns = start_ns_all (declared toks) (heap s ! ns))"
  using ok unfolding r_def
proof (induction toks arbitrary: s k)
  case Nil
  then show ?case by simp
next
  case (Cons tok toks)
  let ?kw = "callable_kwargs self"
  let ?upd = "AList.update ''namespaces'' (PRef ns) k"
  define r1 where "r1 = for_tokens self ns [tok] s"
  define r where "r = for_tokens self ns (tok # toks) s"
  have r_eq: "r = (case r1 of Inl x \<Rightarrow> Inl x | Inr s1 \<Rightarrow> for_tokens self ns toks s1)"
    unfolding r_def r1_def by (rule for_tokens_single)
  note st = token_step [OF Cons.prems, of tok, folded r1_def]
  from st have ok1: "kw_ok ?kw ns k (heap (final r1))"
    and len1: "length (heap (final r1)) = length (heap s)"
    and fr1: "\<forall>a. a \<noteq> ?kw \<longrightarrow> a \<noteq> ns \<longrightarrow> heap (final r1) ! a = heap s ! a"
    and calls1: "calls (final r1) = calls s
          \<or> (\<exists>c. tok = EndElement \<and> calls (final r1) = calls s @ [c]
                \<and> call_ok self ns k (heap s) (heap s ! ns) c)"
    and ns1: "case r1 of Inl x \<Rightarrow> heap (final r1) ! ns = heap s ! ns
          | Inr s1 \<Rightarrow> heap s1 ! ns = start_ns_all (declared [tok]) (heap s ! ns)"
    and up1: "calls (final r1) \<noteq> calls s \<longrightarrow> heap (final r1) ! ?kw = merged ns (heap s ! ns) k"
    by (rule conjunct1, rule conjunct2 [THEN conjunct1], rule conjunct2 [THEN conjunct2, THEN conjunct1],
        rule conjunct2 [THEN conjunct2, THEN conjunct2, THEN conjunct1],
        rule conjunct2 [THEN conjunct2, THEN conjunct2, THEN conjunct2, THEN conjunct1],
        rule conjunct2 [THEN conjunct2, THEN conjunct2, THEN conjunct2, THEN conjunct2])
  from calls1 obtain new1 where new1: "calls (final r1) = calls s @ new1"
    and new1_ok: "\<forall>c \<in> set new1. at_end_tag self ns k s (tok # toks) c"
    and new1_up: "\<forall>c \<in> set new1. c_store c ! ns \<noteq> [] \<longrightarrow> heap (final r1) ! ?kw = ?upd"
  proof
    assume "calls (final r1) = calls s"
    then show ?thesis by (intro that [of "[]"]) auto
  next
    assume "\<exists>c. tok = EndElement \<and> calls (final r1) = calls s @ [c]
                \<and> call_ok self ns k (heap s) (heap s ! ns) c"
    then obtain c where t: "tok = EndElement" and cc: "calls (final r1) = calls s @ [c]"
      and co: "call_ok self ns k (heap s) (heap s ! ns) c" by blast
    have "at_end_tag self ns k s (tok # toks) c"
      unfolding at_end_tag_def
      by (rule exI [of _ "[]"], rule exI [of _ toks]) (simp add: t co)
    moreover have "c_store c ! ns \<noteq> [] \<longrightarrow> heap (final r1) ! ?kw = ?upd"
      using up1 cc co by (simp add: call_ok_def merged_def)
    ultimately show ?thesis using cc by (intro that [of "[c]"]) auto
  qed
  have "kw_ok (callable_kwargs self) ns k (heap (final r))
     \<and> length (heap (final r)) = length (heap s)
     \<and> (\<forall>a. a \<noteq> callable_kwargs self \<longrightarrow> a \<noteq> ns \<longrightarrow> heap (final r) ! a = heap s ! a)
     \<and> (\<exists>new. calls (final r) = calls s @ new
           \<and> (\<forall>c \<in> set new. at_end_tag self ns k s (tok # toks) c)
           \<and> (\<forall>c \<in> set new. c_store c ! ns \<noteq> [] \<longrightarrow> heap (final r) ! ?kw = ?upd))
     \<and> (\<forall>s1. r = Inr s1 \<longrightarrow> heap s1 ! ns = start_ns_all (declared (tok # toks)) (heap s ! ns))"
  proof (cases r1)
    case (Inl x)
    then have r: "r = r1"
      by (simp add: r_eq)
    have "\<exists>new. calls (final r1) = calls s @ new
           \<and> (\<forall>c \<in> set new. at_end_tag self ns k s (tok # toks) c)
           \<and> (\<forall>c \<in> set new. c_store c ! ns \<noteq> [] \<longrightarrow> heap (final r1) ! ?kw = ?upd)"
      using new1 new1_ok new1_up by blast
    moreover have "\<forall>s1. r1 = Inr s1 \<longrightarrow> heap s1 ! ns = start_ns_all (declared (tok # toks)) (heap s ! ns)"
      using Inl by simp
    ultimately show ?thesis
      unfolding r using ok1 len1 fr1 by (intro conjI)
  next
    case (Inr s1)
    define r2 where "r2 = for_tokens self ns toks s1"
    from Inr have r: "r = r2"
      by (simp add: r_eq r2_def)
    from Inr have f1: "final r1 = s1" by simp
    from ns1 Inr have n1: "heap s1 ! ns = start_ns_all (declared [tok]) (heap s ! ns)" by simp
    from ok1 f1 have oks1: "kw_ok ?kw ns k (heap s1)" by simp
    from Cons.IH [OF oks1, folded r2_def]
    have ok2: "kw_ok ?kw ns k (heap (final r2))"
      and len2: "length (heap (final r2)) = length (heap s1)"
      and fr2: "\<forall>a. a \<noteq> ?kw \<longrightarrow> a \<noteq> ns \<longrightarrow> heap (final r2) ! a = heap s1 ! a"
      and calls2: "\<exists>new. calls (final r2) = calls s1 @ new
           \<and> (\<forall>c \<in> set new. at_end_tag self ns k s1 toks c)
           \<and> (\<forall>c \<in> set new. c_store c ! ns \<noteq> [] \<longrightarrow> heap (final r2) ! ?kw = ?upd)"
      and ns2: "\<forall>s2. r2 = Inr s2 \<longrightarrow> heap s2 ! ns = start_ns_all (declared toks) (heap s1 ! ns)"
      by (rule conjunct1, rule conjunct2 [THEN conjunct1], rule conjunct2 [THEN conjunct2, THEN conjunct1],
          rule conjunct2 [THEN conjunct2, THEN conjunct2, THEN conjunct1],
          rule conjunct2 [THEN conjunct2, THEN conjunct2, THEN conjunct2])
    from calls2 obtain new2 where new2: "calls (final r2) = calls s1 @ new2"
      and new2_ok: "\<forall>c \<in> set new2. at_end_tag self ns k s1 toks c"
      and new2_up: "\<forall>c \<in> set new2. c_store c ! ns \<noteq> [] \<longrightarrow> heap (final r2) ! ?kw = ?upd" by blast
    have l1: "length (heap s1) = length (heap s)" using len1 f1 by simp
    have g1: "\<forall>a. a \<noteq> ?kw \<longrightarrow> a \<noteq> ns \<longrightarrow> heap s1 ! a = heap s ! a" using fr1 f1 by simp
    have dn: "start_ns_all (declared pre) (heap s1 ! ns)
          = start_ns_all (declared (tok # pre)) (heap s ! ns)" for pre
      by (subst declared_Cons) (simp only: n1 start_ns_all_append)
    have lift: "at_end_tag self ns k s (tok # toks) c" if "at_end_tag self ns k s1 toks c" for c
    proof -
      from that obtain pre post where sp: "toks = pre @ EndElement # post"
        and co: "call_ok self ns k (heap s1) (start_ns_all (declared pre) (heap s1 ! ns)) c"
        unfolding at_end_tag_def by blast
      from co have "call_ok self ns k (heap s1) (start_ns_all (declared (tok # pre)) (heap s ! ns)) c"
        by (simp only: dn)
      then have "call_ok self ns k (heap s) (start_ns_all (declared (tok # pre)) (heap s ! ns)) c"
        using l1 g1 by (rule call_ok_rebase)
      then show ?thesis
        unfolding at_end_tag_def
        by (intro exI [of _ "tok # pre"] exI [of _ post]) (simp add: sp)
    qed
    have stays: "heap (final r2) ! ?kw = ?upd" if "heap s1 ! ?kw = ?upd"
    proof -
      from oks1 that have "kw_ok ?kw ns ?upd (heap s1)" by (rule kw_ok_updated)
      from Cons.IH [OF this, folded r2_def] have "kw_ok ?kw ns ?upd (heap (final r2))"
        by (rule conjunct1)
      then show ?thesis by (rule kw_ok_updated_D)
    qed
    have c: "calls (final r2) = calls s @ (new1 @ new2)"
      using new1 new2 f1 by simp
    have cok: "\<forall>c \<in> set (new1 @ new2). at_end_tag self ns k s (tok # toks) c"
      using new1_ok new2_ok lift by auto
    have cup: "\<forall>c \<in> set (new1 @ new2). c_store c ! ns \<noteq> [] \<longrightarrow> heap (final r2) ! ?kw = ?upd"
      using new1_up new2_up stays f1 by auto
    have nsr: "\<forall>s2. r2 = Inr s2 \<longrightarrow> heap s2 ! ns = start_ns_all (declared (tok # toks)) (heap s ! ns)"
      using ns2 by (simp only: dn)
    have len: "length (heap (final r2)) = length (heap s)"
      using len2 l1 by simp
    have fr: "\<forall>a. a \<noteq> ?kw \<longrightarrow> a \<noteq> ns \<longrightarrow> heap (final r2) ! a = heap s ! a"
      using fr2 g1 by simp
    have "\<exists>new. calls (final r2) = calls s @ new
           \<and> (\<forall>c \<in> set new. at_end_tag self ns k s (tok # toks) c)
           \<and> (\<forall>c \<in> set new. c_store c ! ns \<noteq> [] \<longrightarrow> heap (final r2) ! ?kw = ?upd)"
      using c cok cup by blast
    then show ?thesis
      unfolding r using ok2 len fr nsr by (intro conjI)
  qed
  then show ?case unfolding r_def .
qed

lemma fast_iteration_calls:
  fixes self :: XMLParser and toks :: "sax list" and s :: session
  assumes kw: "callable_kwargs self < length (heap s)"
  defines "r \<equiv> fast_iteration self toks s"
    and "ns \<equiv> length (heap s)"
    and "k \<equiv> heap s ! callable_kwargs self"
  shows "length (heap (final r)) = Suc (length (heap s))
     \<and> (\<forall>a. a \<noteq> callable_kwargs self \<longrightarrow> a < length (heap s) \<longrightarrow> heap (final r) ! a = heap s ! a)
     \<and> (\<exists>new. calls (final r) = calls s @ new
           \<and> (\<forall>c \<in> set new. \<exists>pre post. toks = pre @ EndElement # post
                 \<and> call_ok self ns k (heap s @ [[]]) (start_ns_all (declared pre) []) c)
           \<and> (\<forall>c \<in> set new. c_store c ! ns \<noteq> [] \<longrightarrow>
                 heap (final r) ! callable_kwargs self = AList.update ''namespaces'' (PRef ns) k))
     \<and> (\<forall>s1. r = Inr s1 \<longrightarrow> heap s1 ! ns = start_ns_all (declared toks) [])"
proof -
  let ?s = "s\<lparr>heap := heap s @ [[]]\<rparr>"
  have r: "r = for_tokens self ns toks ?s"
    by (simp add: r_def ns_def fast_iteration_def alloc_def)
  have ok: "kw_ok (callable_kwargs self) ns k (heap ?s)"
    using kw by (simp add: kw_ok_def ns_def k_def nth_append)
  have n0: "heap ?s ! ns = []" by (simp add: ns_def)
  note rc = run_calls [OF ok, of toks, folded r]
  from rc have len: "length (heap (final r)) = length (heap ?s)"
    and fr: "\<forall>a. a \<noteq> callable_kwargs self \<longrightarrow> a \<noteq> ns \<longrightarrow> heap (final r) ! a = heap ?s ! a"
    and cs: "\<exists>new. calls (final r) = calls ?s @ new
           \<and> (\<forall>c \<in> set new. at_end_tag self ns k ?s toks c)
           \<and> (\<forall>c \<in> set new. c_store c ! ns \<noteq> [] \<longrightarrow>
                 heap (final r) ! callable_kwargs self = AList.update ''namespaces'' (PRef ns) k)"
    and fin: "\<forall>s1. r = Inr s1 \<longrightarrow> heap s1 ! ns = start_ns_all (declared toks) (heap ?s ! ns)"
    by (rule conjunct2 [THEN conjunct1], rule conjunct2 [THEN conjunct2, THEN conjunct1],
        rule conjunct2 [THEN conjunct2, THEN conjunct2, THEN conjunct1],
        rule conjunct2 [THEN conjunct2, THEN conjunct2, THEN conjunct2])
  have a: "length (heap (final r)) = Suc (length (heap s))"
    using len by simp
  have b: "\<forall>a. a \<noteq> callable_kwargs self \<longrightarrow> a < length (heap s) \<longrightarrow> heap (final r) ! a = heap s ! a"
    using fr by (auto simp: ns_def nth_append)
  have c: "\<exists>new. calls (final r) = calls s @ new
           \<and> (\<forall>c \<in> set new. \<exists>pre post. toks = pre @ EndElement # post
                 \<and> call_ok self ns k (heap s @ [[]]) (start_ns_all (declared pre) []) c)
           \<and> (\<forall>c \<in> set new. c_store c ! ns \<noteq> [] \<longrightarrow>
                 heap (final r) ! callable_kwargs self = AList.update ''namespaces'' (PRef ns) k)"
    using cs unfolding at_end_tag_def by (simp add: ns_def)
  have d: "\<forall>s1. r = Inr s1 \<longrightarrow> heap s1 ! ns = start_ns_all (declared toks) []"
    using fin n0 by simp
  from a b c d show ?thesis by (intro conjI)
qed

section \<open>What a handler is given\<close>

lemma merged_namespaces:
  "n \<noteq> [] \<Longrightarrow> map_of (merged ns n k) ''namespaces'' = Some (PRef ns)"
  by (simp add: merged_def update_conv')

lemma for_tokens_append:
  "for_tokens self ns (xs @ ys) s =
     (case for_tokens self ns xs s of Inl x \<Rightarrow> Inl x | Inr s1 \<Rightarrow> for_tokens self ns ys s1)"
proof (induction xs arbitrary: s)
  case Nil
  show ?case by simp
next
  case (Cons tok xs)
  show ?case
    by (simp add: Cons.IH split: sum.splits prod.splits)
qed

text \<open>The dispatch at an end tag that makes an event.\<close>

lemma dispatch_step:
  fixes self :: XMLParser and ns :: addr and s :: session
  assumes ok: "kw_ok (callable_kwargs self) ns k (heap s)"
    and fd: "feed EndElement (xml_tree s) = Inr ([End p], ip)"
  defines "r \<equiv> for_tokens self ns [EndElement] s"
  shows "\<exists>c. calls (final r) = calls s @ [c]
      \<and> call_ok self ns k (heap s) (heap s ! ns) c
      \<and> c_element c = node_at p (ip_doc (xml_tree s))"
proof -
  let ?s0 = "s\<lparr>xml_tree := ip\<rparr>"
  let ?b = "loop_body self ns (End p) ?s0"
  have fr: "final r = final ?b"
    using fd by (simp add: r_def split: sum.splits prod.splits)
  have doc: "ip_doc ip = ip_doc (xml_tree s)"
    using fd by (auto simp: feed_def split: if_splits)
  from loop_body_End [of "callable_kwargs self" self ns p ?s0]
  obtain c where c: "calls (final ?b) = calls s @ [c]"
    and el: "c_element c = node_at p (ip_doc ip)"
    by auto
  from token_step [OF ok, of EndElement, folded r_def]
  have "calls (final r) = calls s
          \<or> (\<exists>c. EndElement = EndElement \<and> calls (final r) = calls s @ [c]
                \<and> call_ok self ns k (heap s) (heap s ! ns) c)"
    by (rule conjunct2 [THEN conjunct2, THEN conjunct2, THEN conjunct1])
  with c fr have "call_ok self ns k (heap s) (heap s ! ns) c"
    by auto
  with c el fr doc show ?thesis
    by auto
qed

text \<open>
  C4, as the specification words it, does not hold: the handler is not given a copy or
  an immutable view. In the example the handler called at the end of \<open>a\<close> is given the
  address 1; the dictionary at that address held the binding of \<open>p\<close> then, and after the
  run it holds the binding of \<open>q\<close> too, which was declared after that call.
\<close>

theorem namespaces_by_value_counterexample:
  "map_of (c_kwargs (hd (calls (final (fast_iteration ex_self ex_toks (ex_start [[]]))))))
     ''namespaces'' = Some (PRef 1)
   \<and> c_store (hd (calls (final (fast_iteration ex_self ex_toks (ex_start [[]]))))) ! 1
     = [(''p'', PStr ''u1'')]
   \<and> heap (final (fast_iteration ex_self ex_toks (ex_start [[]]))) ! 1
     = [(''p'', PStr ''u1''), (''q'', PStr ''u2'')]"
  by (simp add: fast_iteration_def ex_toks_def ex_start_def ex_self_def alloc_def feed_def
      iterparse_new_def loop_body_def Let_def tag_matches_def append_child_def prune_def clear_def
      start_ns_def ns_key_def del_first_def is_element_def)

text \<open>
  C4, amended. Take any end tag of the token sequence at which an \<^verbatim>\<open>end\<close> event is made,
  the loop having returned from all tokens before it. The call of the handler made for
  that event is the next call after those made before; it is given the element of the
  event; at that call the namespace dictionary of the loop holds exactly the
  declarations read before that end tag, applied in their order, and none that comes
  later; and the keyword arguments are those of the caller, to which the address of the
  namespace dictionary has been added under \<^verbatim>\<open>namespaces\<close> if and only if a declaration
  has been read before that end tag. What is given is the address: a reference to the
  one dictionary of the loop, which after a complete run holds all declarations of the
  document.
\<close>

theorem namespaces_at_dispatch:
  assumes kw: "callable_kwargs self < length (heap s)"
    and before: "fast_iteration self pre s = Inr s1"
    and event: "feed EndElement (xml_tree s1) = Inr ([End p], ip)"
  shows "\<exists>c later.
       calls (final (fast_iteration self (pre @ EndElement # post) s)) = calls s1 @ c # later
     \<and> c_element c = node_at p (ip_doc (xml_tree s1))
     \<and> c_store c ! length (heap s) = start_ns_all (declared pre) []
     \<and> c_kwargs c = (if declared pre \<noteq> []
          then AList.update ''namespaces'' (PRef (length (heap s))) (heap s ! callable_kwargs self)
          else heap s ! callable_kwargs self)
     \<and> (declared pre \<noteq> [] \<longrightarrow>
          map_of (c_kwargs c) ''namespaces'' = Some (PRef (length (heap s))))
     \<and> (\<forall>s2. fast_iteration self (pre @ EndElement # post) s = Inr s2 \<longrightarrow>
          heap s2 ! length (heap s) = start_ns_all (declared (pre @ EndElement # post)) [])"
proof -
  let ?kw = "callable_kwargs self"
  let ?ns = "length (heap s)"
  let ?k = "heap s ! ?kw"
  let ?s = "s\<lparr>heap := heap s @ [[]]\<rparr>"
  let ?toks = "pre @ EndElement # post"
  define r1 where "r1 = for_tokens self ?ns [EndElement] s1"
  have fi: "fast_iteration self toks s = for_tokens self ?ns toks ?s" for toks
    by (simp add: fast_iteration_def alloc_def)
  have ok: "kw_ok ?kw ?ns ?k (heap ?s)"
    using kw by (simp add: kw_ok_def nth_append)
  have pre: "for_tokens self ?ns pre ?s = Inr s1"
    using before by (simp only: fi)
  note rc = run_calls [OF ok, of pre, unfolded pre final_simps]
  from rc have ok1: "kw_ok ?kw ?ns ?k (heap s1)"
    by (rule conjunct1)
  note rc [THEN conjunct2, THEN conjunct2, THEN conjunct2, THEN conjunct2]
  then have n1: "heap s1 ! ?ns = start_ns_all (declared pre) []"
    by simp
  from dispatch_step [OF ok1 event, folded r1_def]
  obtain c where c: "calls (final r1) = calls s1 @ [c]"
    and co: "call_ok self ?ns ?k (heap s1) (heap s1 ! ?ns) c"
    and el: "c_element c = node_at p (ip_doc (xml_tree s1))"
    by blast
  have whole: "fast_iteration self ?toks s
      = (case r1 of Inl x \<Rightarrow> Inl x | Inr s2 \<Rightarrow> for_tokens self ?ns post s2)"
    unfolding fi r1_def
    by (subst for_tokens_append, simp only: pre sum.case, rule for_tokens_single)
  have later: "\<exists>later. calls (final (fast_iteration self ?toks s)) = calls s1 @ c # later"
  proof (cases r1)
    case (Inl x)
    then have "fast_iteration self ?toks s = r1"
      by (simp add: whole)
    with c show ?thesis by simp
  next
    case (Inr s2)
    then have w: "fast_iteration self ?toks s = for_tokens self ?ns post s2"
      by (simp add: whole)
    from token_step [OF ok1, of EndElement, folded r1_def] have "kw_ok ?kw ?ns ?k (heap (final r1))"
      by (rule conjunct1)
    with Inr have ok2: "kw_ok ?kw ?ns ?k (heap s2)"
      by simp
    from run_calls [OF ok2, of post]
    have "\<exists>new. calls (final (for_tokens self ?ns post s2)) = calls s2 @ new
           \<and> (\<forall>c \<in> set new. at_end_tag self ?ns ?k s2 post c)
           \<and> (\<forall>c \<in> set new. c_store c ! ?ns \<noteq> [] \<longrightarrow>
                 heap (final (for_tokens self ?ns post s2)) ! ?kw
                   = AList.update ''namespaces'' (PRef ?ns) ?k)"
      by (rule conjunct2 [THEN conjunct2, THEN conjunct2, THEN conjunct1])
    then obtain new where "calls (final (for_tokens self ?ns post s2)) = calls s2 @ new"
      by blast
    moreover from c Inr have "calls s2 = calls s1 @ [c]"
      by simp
    ultimately show ?thesis
      by (simp add: w)
  qed
  from co have st: "c_store c ! ?ns = start_ns_all (declared pre) []"
    and kwargs: "c_kwargs c = merged ?ns (start_ns_all (declared pre) []) ?k"
    by (simp_all add: call_ok_def n1)
  from kwargs have kwargs': "c_kwargs c = (if declared pre \<noteq> []
          then AList.update ''namespaces'' (PRef ?ns) ?k else ?k)"
    by (simp add: merged_def start_ns_all_Nil_iff)
  have given: "declared pre \<noteq> [] \<longrightarrow> map_of (c_kwargs c) ''namespaces'' = Some (PRef ?ns)"
    using kwargs by (simp add: merged_namespaces start_ns_all_Nil_iff)
  from fast_iteration_calls [OF kw, of ?toks]
  have fin: "\<forall>s2. fast_iteration self ?toks s = Inr s2 \<longrightarrow>
          heap s2 ! ?ns = start_ns_all (declared ?toks) []"
    by (rule conjunct2 [THEN conjunct2, THEN conjunct2])
  from later obtain l where "calls (final (fast_iteration self ?toks s)) = calls s1 @ c # l"
    by blast
  with el st kwargs' given fin show ?thesis
    by (intro exI [of _ c] exI [of _ l] conjI)
qed

theorem namespaces_at_dispatch_witness:
  "callable_kwargs ex_self < length (heap (ex_start [[]]))
   \<and> take 2 ex_toks @ EndElement # drop 3 ex_toks = ex_toks
   \<and> (\<exists>s1 ip. fast_iteration ex_self (take 2 ex_toks) (ex_start [[]]) = Inr s1
        \<and> feed EndElement (xml_tree s1) = Inr ([End [0, 0]], ip)
        \<and> calls s1 = []
        \<and> (\<exists>c later. calls (final (fast_iteration ex_self (take 2 ex_toks @ EndElement # drop 3 ex_toks)
                (ex_start [[]]))) = calls s1 @ c # later
             \<and> c_store c ! length (heap (ex_start [[]])) = start_ns_all (declared (take 2 ex_toks)) []
             \<and> map_of (c_kwargs c) ''namespaces'' = Some (PRef (length (heap (ex_start [[]]))))))
   \<and> start_ns_all (declared (take 2 ex_toks)) [] = [(''p'', PStr ''u1'')]
   \<and> (\<exists>s2. fast_iteration ex_self (take 2 ex_toks @ EndElement # drop 3 ex_toks) (ex_start [[]]) = Inr s2
        \<and> heap s2 ! length (heap (ex_start [[]])) = [(''p'', PStr ''u1''), (''q'', PStr ''u2'')])"
proof -
  have h: "callable_kwargs ex_self < length (heap (ex_start [[]]))"
    by (simp add: ex_self_def ex_start_def)
  have t: "take 2 ex_toks @ EndElement # drop 3 ex_toks = ex_toks"
    by (simp add: ex_toks_def)
  have d: "start_ns_all (declared (take 2 ex_toks)) [] = [(''p'', PStr ''u1'')]"
    and d': "start_ns_all (declared ex_toks) [] = [(''p'', PStr ''u1''), (''q'', PStr ''u2'')]"
    by (simp_all add: ex_toks_def start_ns_def ns_key_def)
  have r: "\<not> isl (fast_iteration ex_self (take 2 ex_toks) (ex_start [[]]))
      \<and> feed EndElement (xml_tree (final (fast_iteration ex_self (take 2 ex_toks) (ex_start [[]]))))
          = Inr ([End [0, 0]],
              (xml_tree (final (fast_iteration ex_self (take 2 ex_toks) (ex_start [[]]))))\<lparr>ip_depth := 1\<rparr>)
      \<and> calls (final (fast_iteration ex_self (take 2 ex_toks) (ex_start [[]]))) = []"
    by (simp add: fast_iteration_def ex_toks_def ex_start_def ex_self_def alloc_def feed_def
      iterparse_new_def loop_body_def Let_def tag_matches_def append_child_def prune_def clear_def
      start_ns_def ns_key_def del_first_def is_element_def)
  have whole: "\<not> isl (fast_iteration ex_self ex_toks (ex_start [[]]))"
    by (simp add: fast_iteration_def ex_toks_def ex_start_def ex_self_def alloc_def feed_def
      iterparse_new_def loop_body_def Let_def tag_matches_def append_child_def prune_def clear_def
      start_ns_def ns_key_def del_first_def is_element_def)
  define s1 where "s1 = final (fast_iteration ex_self (take 2 ex_toks) (ex_start [[]]))"
  define s2 where "s2 = final (fast_iteration ex_self ex_toks (ex_start [[]]))"
  from r have b: "fast_iteration ex_self (take 2 ex_toks) (ex_start [[]]) = Inr s1"
    by (cases "fast_iteration ex_self (take 2 ex_toks) (ex_start [[]])") (simp_all add: s1_def)
  from whole have b2: "fast_iteration ex_self (take 2 ex_toks @ EndElement # drop 3 ex_toks) (ex_start [[]]) = Inr s2"
    unfolding t by (cases "fast_iteration ex_self ex_toks (ex_start [[]])") (simp_all add: s2_def)
  from r have e: "feed EndElement (xml_tree s1) = Inr ([End [0, 0]], (xml_tree s1)\<lparr>ip_depth := 1\<rparr>)"
    and l: "calls s1 = []"
    by (simp_all add: s1_def)
  from d have ne: "declared (take 2 ex_toks) \<noteq> []"
    by auto
  note at_a = namespaces_at_dispatch [OF h b e, of "drop 3 ex_toks"]
  from at_a ne
  have c: "\<exists>c later. calls (final (fast_iteration ex_self (take 2 ex_toks @ EndElement # drop 3 ex_toks)
                (ex_start [[]]))) = calls s1 @ c # later
             \<and> c_store c ! length (heap (ex_start [[]])) = start_ns_all (declared (take 2 ex_toks)) []
             \<and> map_of (c_kwargs c) ''namespaces'' = Some (PRef (length (heap (ex_start [[]]))))"
    by blast
  from at_a b2 have "heap s2 ! length (heap (ex_start [[]]))
      = start_ns_all (declared (take 2 ex_toks @ EndElement # drop 3 ex_toks)) []"
    by blast
  then have "heap s2 ! length (heap (ex_start [[]])) = [(''p'', PStr ''u1''), (''q'', PStr ''u2'')]"
    by (simp only: t d')
  with b2 have f: "\<exists>s2. fast_iteration ex_self (take 2 ex_toks @ EndElement # drop 3 ex_toks) (ex_start [[]]) = Inr s2
        \<and> heap s2 ! length (heap (ex_start [[]])) = [(''p'', PStr ''u1''), (''q'', PStr ''u2'')]"
    by blast
  from h t b e l c d f show ?thesis
    by blast
qed

text \<open>
  C6, amended. At a dispatch the handler is called with the element, the positional
  arguments as they were given, and the keyword dictionary, into which the address of the
  namespace dictionary has been put under \<^verbatim>\<open>namespaces\<close> if and only if that dictionary is
  not empty; the loop goes on exactly when the handler returns and the pruning that
  follows does not raise. In a run, a call that comes before any declaration receives
  the keyword dictionary as the caller left it: no entry is added, and an entry
  \<^verbatim>\<open>namespaces\<close> that the caller put there is passed on.
\<close>

theorem dispatch_merges_namespaces:
  assumes kw: "callable_kwargs self < length (heap s)"
  shows "(\<exists>c. calls (final (loop_body self ns (End p) s)) = calls s @ [c]
           \<and> c_element c = node_at p (ip_doc (xml_tree s))
           \<and> c_args c = callable_args self
           \<and> c_kwargs c = (if heap s ! ns \<noteq> []
                then AList.update ''namespaces'' (PRef ns) (heap s ! callable_kwargs self)
                else heap s ! callable_kwargs self)
           \<and> (isl (loop_body self ns (End p) s) \<longleftrightarrow>
                isl (python_callable self (c_element c) (c_args c) (c_kwargs c) (c_store c) (os s))
                \<or> isl (prune p (ip_doc (xml_tree s)))))
     \<and> (\<exists>new. calls (final (fast_iteration self toks s)) = calls s @ new
           \<and> (\<forall>c \<in> set new. \<exists>pre post. toks = pre @ EndElement # post
                \<and> c_args c = callable_args self
                \<and> c_kwargs c = (if declared pre \<noteq> []
                     then AList.update ''namespaces'' (PRef (length (heap s))) (heap s ! callable_kwargs self)
                     else heap s ! callable_kwargs self)))"
proof
  show "\<exists>c. calls (final (loop_body self ns (End p) s)) = calls s @ [c]
           \<and> c_element c = node_at p (ip_doc (xml_tree s))
           \<and> c_args c = callable_args self
           \<and> c_kwargs c = (if heap s ! ns \<noteq> []
                then AList.update ''namespaces'' (PRef ns) (heap s ! callable_kwargs self)
                else heap s ! callable_kwargs self)
           \<and> (isl (loop_body self ns (End p) s) \<longleftrightarrow>
                isl (python_callable self (c_element c) (c_args c) (c_kwargs c) (c_store c) (os s))
                \<or> isl (prune p (ip_doc (xml_tree s))))"
    using kw by (auto simp: loop_body_def Let_def split: sum.splits prod.splits)
next
  let ?ns = "length (heap s)"
  let ?k = "heap s ! callable_kwargs self"
  let ?r = "fast_iteration self toks s"
  from fast_iteration_calls [OF kw, of toks]
  obtain new where new: "calls (final ?r) = calls s @ new"
    and ok: "\<forall>c \<in> set new. \<exists>pre post. toks = pre @ EndElement # post
                 \<and> call_ok self ?ns ?k (heap s @ [[]]) (start_ns_all (declared pre) []) c"
    by blast
  have "\<exists>pre post. toks = pre @ EndElement # post
          \<and> c_args c = callable_args self
          \<and> c_kwargs c = (if declared pre \<noteq> [] then AList.update ''namespaces'' (PRef ?ns) ?k else ?k)"
    if "c \<in> set new" for c
  proof -
    from ok that obtain pre post where sp: "toks = pre @ EndElement # post"
      and co: "call_ok self ?ns ?k (heap s @ [[]]) (start_ns_all (declared pre) []) c"
      by blast
    from co have "c_args c = callable_args self"
      and "c_kwargs c = (if declared pre \<noteq> [] then AList.update ''namespaces'' (PRef ?ns) ?k else ?k)"
      by (simp_all add: call_ok_def merged_def start_ns_all_Nil_iff)
    with sp show ?thesis by blast
  qed
  with new show "\<exists>new. calls (final ?r) = calls s @ new
           \<and> (\<forall>c \<in> set new. \<exists>pre post. toks = pre @ EndElement # post
                \<and> c_args c = callable_args self
                \<and> c_kwargs c = (if declared pre \<noteq> [] then AList.update ''namespaces'' (PRef ?ns) ?k else ?k))"
    by blast
qed

text \<open>
  C6, as the specification words it, does not hold in its last sentence: with no
  namespace declared in the document, the handler still receives an entry
  \<^verbatim>\<open>namespaces\<close> when the caller's dictionary has one.
\<close>

theorem namespaces_entry_counterexample:
  "declared ex_plain = []
   \<and> map_of (c_kwargs (hd (calls (final (fast_iteration ex_self ex_plain
        (ex_start [[(''namespaces'', PRef 1)], [(''ns'', PStr ''u'')]]))))))
      ''namespaces'' = Some (PRef 1)"
  by (simp add: fast_iteration_def ex_plain_def ex_start_def ex_self_def alloc_def feed_def
      iterparse_new_def loop_body_def Let_def tag_matches_def append_child_def prune_def clear_def)

theorem dispatch_merges_namespaces_witness:
  "callable_kwargs ex_self < length (heap (ex_start [[]]))
   \<and> (\<exists>c. calls (final (loop_body ex_self 1 (End [0]) (ex_start [[], [(''p'', PStr ''u'')]])))
             = calls (ex_start [[], [(''p'', PStr ''u'')]]) @ [c]
          \<and> c_kwargs c = [(''namespaces'', PRef 1)])"
proof -
  have h: "callable_kwargs ex_self < length (heap (ex_start [[], [(''p'', PStr ''u'')]]))"
    by (simp add: ex_self_def ex_start_def)
  have h0: "callable_kwargs ex_self < length (heap (ex_start [[]]))"
    by (simp add: ex_self_def ex_start_def)
  have n: "heap (ex_start [[], [(''p'', PStr ''u'')]]) ! 1 \<noteq> []"
    and k: "heap (ex_start [[], [(''p'', PStr ''u'')]]) ! callable_kwargs ex_self = []"
    by (simp_all add: ex_start_def ex_self_def)
  from dispatch_merges_namespaces [OF h, of 1 "[0]" "[]", THEN conjunct1]
  obtain c where "calls (final (loop_body ex_self 1 (End [0]) (ex_start [[], [(''p'', PStr ''u'')]])))
             = calls (ex_start [[], [(''p'', PStr ''u'')]]) @ [c]"
    and "c_kwargs c = (if heap (ex_start [[], [(''p'', PStr ''u'')]]) ! 1 \<noteq> []
                then AList.update ''namespaces'' (PRef 1) (heap (ex_start [[], [(''p'', PStr ''u'')]]) ! callable_kwargs ex_self)
                else heap (ex_start [[], [(''p'', PStr ''u'')]]) ! callable_kwargs ex_self)"
    by blast
  with n k h0 show ?thesis by auto
qed

section \<open>The constructor\<close>

lemma final_init_simps [simp]:
  "final_init (Inl (e, s)) = s" "final_init (Inr (self, s)) = s"
  by (simp_all add: final_init_def)

lemma new_self_fields [simp]:
  "xml_file (new_self a f kw) = a_xml_file a"
  "python_callable (new_self a f kw) = f"
  "callable_kwargs (new_self a f kw) = kw"
  "tag (new_self a f kw) = a_tag a"
  "dtd_validation (new_self a f kw) = a_dtd_validation a"
  by (simp_all add: new_self_def)

lemma start_session_fields [simp]:
  "heap (start_session t h w) = h"
  "calls (start_session t h w) = []"
  "os (start_session t h w) = w"
  "xml_tree (start_session t h w) = iterparse_new t"
  by (simp_all add: start_session_def)

lemma XMLParser_init_run:
  assumes "a_python_callable a = Some f"
    and "kwargs_or_new (a_callable_kwargs a) h = (kw, h1)"
    and "compile_schema lib (schema (new_self a f kw)) = None"
    and "is_non_empty_file (a_xml_file a) (files w)"
  shows "XMLParser_init lib a h w =
     (case fast_iteration (new_self a f kw)
             (tokens lib (file_content (a_xml_file a) (files w)) (a_dtd_validation a)
                (schema (new_self a f kw)))
             (start_session (a_tag a) h1 w) of
        Inl x \<Rightarrow> Inl x
      | Inr s1 \<Rightarrow> Inr (new_self a f kw, s1))"
  using assms by (simp add: XMLParser_init_def Let_def)

lemma XMLParser_init_no_run:
  assumes "a_python_callable a = None
     \<or> (\<exists>f kw h1. a_python_callable a = Some f \<and> kwargs_or_new (a_callable_kwargs a) h = (kw, h1)
          \<and> (compile_schema lib (schema (new_self a f kw)) \<noteq> None
               \<or> \<not> is_non_empty_file (a_xml_file a) (files w)))"
  shows "calls (final_init (XMLParser_init lib a h w)) = []"
  using assms
  by (auto simp: XMLParser_init_def Let_def split: option.splits)

text \<open>
  C10, amended. When the caller gives a dictionary that is not empty, the parser object
  uses that very dictionary. Every call of the handler that is made once the namespace
  dictionary is not empty receives, under \<^verbatim>\<open>namespaces\<close>, the address of the one
  namespace dictionary of the loop; the caller's dictionary holds that entry at the
  moment of the call and still holds it when the constructor is left; and the namespace
  dictionary goes on changing: after a complete run it holds all declarations of the
  document.
\<close>

theorem caller_dictionary_is_shared:
  assumes given: "a_callable_kwargs a = Some k" and valid: "k < length h" and nonempty: "h ! k \<noteq> []"
  shows "(\<forall>self s1. XMLParser_init lib a h w = Inr (self, s1) \<longrightarrow> callable_kwargs self = k)
     \<and> (\<forall>c \<in> set (calls (final_init (XMLParser_init lib a h w))).
           c_store c ! length h \<noteq> [] \<longrightarrow>
             map_of (c_kwargs c) ''namespaces'' = Some (PRef (length h))
             \<and> c_store c ! k = c_kwargs c
             \<and> map_of (heap (final_init (XMLParser_init lib a h w)) ! k) ''namespaces''
                 = Some (PRef (length h)))
     \<and> (\<forall>self s1. XMLParser_init lib a h w = Inr (self, s1) \<longrightarrow>
           heap s1 ! length h
             = start_ns_all (declared (tokens lib (file_content (a_xml_file a) (files w))
                 (a_dtd_validation a) (schema self))) [])"
proof (cases "\<exists>f. a_python_callable a = Some f
    \<and> compile_schema lib (schema (new_self a f k)) = None
    \<and> is_non_empty_file (a_xml_file a) (files w)")
  case False
  have kn: "kwargs_or_new (a_callable_kwargs a) h = (k, h)"
    using given nonempty by (simp add: kwargs_or_new_def)
  from False kn have "calls (final_init (XMLParser_init lib a h w)) = []"
    by (intro XMLParser_init_no_run) (cases "a_python_callable a", auto)
  moreover from False kn have "\<forall>self s1. XMLParser_init lib a h w \<noteq> Inr (self, s1)"
    by (auto simp: XMLParser_init_def Let_def split: option.splits sum.splits)
  ultimately show ?thesis by simp
next
  case True
  then obtain f where f: "a_python_callable a = Some f"
    and sch: "compile_schema lib (schema (new_self a f k)) = None"
    and fl: "is_non_empty_file (a_xml_file a) (files w)"
    by blast
  have kn: "kwargs_or_new (a_callable_kwargs a) h = (k, h)"
    using given nonempty by (simp add: kwargs_or_new_def)
  let ?self = "new_self a f k"
  let ?toks = "tokens lib (file_content (a_xml_file a) (files w)) (a_dtd_validation a) (schema ?self)"
  let ?s = "start_session (a_tag a) h w"
  let ?r = "fast_iteration ?self ?toks ?s"
  have init: "XMLParser_init lib a h w = (case ?r of Inl x \<Rightarrow> Inl x | Inr s1 \<Rightarrow> Inr (?self, s1))"
    by (rule XMLParser_init_run [OF f kn sch fl])
  have fin: "final_init (XMLParser_init lib a h w) = final ?r"
    by (cases ?r) (auto simp: init)
  have kw: "callable_kwargs ?self < length (heap ?s)"
    using valid by simp
  have hs: "heap ?s = h" and cs: "calls ?s = []" and ks: "callable_kwargs ?self = k"
    by simp_all
  from fast_iteration_calls [OF kw, of ?toks, unfolded hs cs ks]
  obtain new where new: "calls (final ?r) = new"
    and ok: "\<forall>c \<in> set new. \<exists>pre post. ?toks = pre @ EndElement # post
                 \<and> call_ok ?self (length h) (h ! k) (h @ [[]]) (start_ns_all (declared pre) []) c"
    and up: "\<forall>c \<in> set new. c_store c ! length h \<noteq> [] \<longrightarrow>
                 heap (final ?r) ! k = AList.update ''namespaces'' (PRef (length h)) (h ! k)"
    and all: "\<forall>s1. ?r = Inr s1 \<longrightarrow> heap s1 ! length h = start_ns_all (declared ?toks) []"
    by auto
  have a: "\<forall>self s1. XMLParser_init lib a h w = Inr (self, s1) \<longrightarrow> callable_kwargs self = k"
    by (cases ?r) (auto simp: init ks)
  have b: "map_of (c_kwargs c) ''namespaces'' = Some (PRef (length h))
             \<and> c_store c ! k = c_kwargs c
             \<and> map_of (heap (final ?r) ! k) ''namespaces'' = Some (PRef (length h))"
    if "c \<in> set new" and "c_store c ! length h \<noteq> []" for c
  proof -
    from ok that(1) obtain pre post where
      co: "call_ok ?self (length h) (h ! k) (h @ [[]]) (start_ns_all (declared pre) []) c"
      by blast
    from co that(2) have "c_kwargs c = AList.update ''namespaces'' (PRef (length h)) (h ! k)"
      and "c_store c ! k = c_kwargs c"
      by (simp_all add: call_ok_def merged_def ks)
    moreover from up that have "heap (final ?r) ! k = AList.update ''namespaces'' (PRef (length h)) (h ! k)"
      by blast
    ultimately show ?thesis by (simp add: update_conv')
  qed
  have c: "\<forall>self s1. XMLParser_init lib a h w = Inr (self, s1) \<longrightarrow>
           heap s1 ! length h
             = start_ns_all (declared (tokens lib (file_content (a_xml_file a) (files w))
                 (a_dtd_validation a) (schema self))) []"
    using all by (cases ?r) (auto simp: init)
  from a b c new show ?thesis
    unfolding fin by (intro conjI) auto
qed

lemma ex_lib_fields [simp]:
  "tokens (ex_lib toks) c d sch = toks"
  "XMLSchema (ex_lib toks) b = (if take 1 b = ''<'' then None else Some XMLSyntaxError)"
  by (simp_all add: ex_lib_def)

text \<open>
  C10, as it is worded, does not hold for every dictionary the caller may supply: an
  empty dictionary is replaced by a new one (\<^verbatim>\<open>callable_kwargs or {}\<close>). In the example
  the caller's dictionary at the address 0 is still empty after the run; the entry
  \<^verbatim>\<open>namespaces\<close> went into the new dictionary at the address 1.
\<close>

theorem empty_caller_dictionary_counterexample:
  "heap (final_init (XMLParser_init (ex_lib ex_toks) (ex_args (Some 0) None) [[]] (ex_world ''<root/>''))) ! 0 = []
   \<and> heap (final_init (XMLParser_init (ex_lib ex_toks) (ex_args (Some 0) None) [[]] (ex_world ''<root/>''))) ! 1
       = [(''namespaces'', PRef 2)]
   \<and> map_of (c_kwargs (hd (calls (final_init
         (XMLParser_init (ex_lib ex_toks) (ex_args (Some 0) None) [[]] (ex_world ''<root/>''))))))
       ''namespaces'' = Some (PRef 2)"
  by (simp add: XMLParser_init_def kwargs_or_new_def compile_schema_def is_non_empty_file_def
      file_content_def ex_args_def ex_world_def new_self_def start_session_def
      fast_iteration_def ex_toks_def alloc_def feed_def
      iterparse_new_def loop_body_def Let_def tag_matches_def append_child_def prune_def clear_def
      start_ns_def ns_key_def del_first_def)

theorem caller_dictionary_is_shared_witness:
  "a_callable_kwargs (ex_args (Some 0) None) = Some 0
   \<and> 0 < length [[(''csv_file'', PStr ''out.csv'')]]
   \<and> [[(''csv_file'', PStr ''out.csv'')]] ! 0 \<noteq> []
   \<and> (\<exists>c. c \<in> set (calls (final_init (XMLParser_init (ex_lib ex_toks) (ex_args (Some 0) None)
              [[(''csv_file'', PStr ''out.csv'')]] (ex_world ''<root/>''))))
        \<and> c_store c ! length [[(''csv_file'', PStr ''out.csv'')]] \<noteq> []
        \<and> map_of (heap (final_init (XMLParser_init (ex_lib ex_toks) (ex_args (Some 0) None)
              [[(''csv_file'', PStr ''out.csv'')]] (ex_world ''<root/>''))) ! 0) ''namespaces''
            = Some (PRef (length [[(''csv_file'', PStr ''out.csv'')]])))"
proof -
  let ?h = "[[(''csv_file'', PStr ''out.csv'')]]"
  let ?r = "XMLParser_init (ex_lib ex_toks) (ex_args (Some 0) None) ?h (ex_world ''<root/>'')"
  have a: "a_callable_kwargs (ex_args (Some 0) None) = Some 0"
    by (simp add: ex_args_def)
  have b: "0 < length ?h" and c: "?h ! 0 \<noteq> []"
    by simp_all
  have d: "hd (calls (final_init ?r)) \<in> set (calls (final_init ?r))
      \<and> c_store (hd (calls (final_init ?r))) ! length ?h \<noteq> []"
    by (simp add: XMLParser_init_def kwargs_or_new_def compile_schema_def is_non_empty_file_def
      file_content_def ex_args_def ex_world_def new_self_def start_session_def
      fast_iteration_def ex_toks_def alloc_def feed_def
      iterparse_new_def loop_body_def Let_def tag_matches_def append_child_def prune_def clear_def
      start_ns_def ns_key_def del_first_def)
  from caller_dictionary_is_shared [OF a b c, of "ex_lib ex_toks" "ex_world ''<root/>''"] d
  have "map_of (heap (final_init ?r) ! 0) ''namespaces'' = Some (PRef (length ?h))"
    by blast
  with a b c d show ?thesis by blast
qed

text \<open>
  C8, amended. Provided the handler is callable and the schema, if one is given, compiles
  (both are looked at before the input file), a path that does not exist or names an
  empty file makes the constructor raise \<^verbatim>\<open>RuntimeError\<close> with no call made and no token
  read; and for a file that exists and is not empty the constructor is the loop over the
  tokens of the file's content, started with no call made.
\<close>

theorem guard_on_input_file:
  assumes callable: "a_python_callable a = Some f"
    and compiled: "a_schema a = None \<or> a_schema a = Some [] \<or> (\<exists>b. a_schema a = Some b \<and> XMLSchema lib b = None)"
  shows "((files w (a_xml_file a) = None \<or> files w (a_xml_file a) = Some (File [])) \<longrightarrow>
            (\<exists>s. XMLParser_init lib a h w
                   = Inl (RuntimeError (a_xml_file a @ '' is empty or non-existing.''), s)
               \<and> calls s = [] \<and> xml_tree s = iterparse_new (a_tag a) \<and> os s = w))
     \<and> (\<forall>content. files w (a_xml_file a) = Some (File content) \<and> content \<noteq> [] \<longrightarrow>
            (\<exists>self s. XMLParser_init lib a h w
                   = (case fast_iteration self (tokens lib content (a_dtd_validation a) (schema self)) s of
                        Inl x \<Rightarrow> Inl x | Inr s1 \<Rightarrow> Inr (self, s1))
               \<and> python_callable self = f
               \<and> calls s = [] \<and> xml_tree s = iterparse_new (a_tag a) \<and> os s = w))"
proof -
  obtain kw h1 where kn: "kwargs_or_new (a_callable_kwargs a) h = (kw, h1)"
    by (cases "kwargs_or_new (a_callable_kwargs a) h")
  have sch: "compile_schema lib (schema (new_self a f kw)) = None"
    using compiled by (auto simp: compile_schema_def new_self_def)
  show ?thesis
  proof (intro conjI impI allI)
    assume "files w (a_xml_file a) = None \<or> files w (a_xml_file a) = Some (File [])"
    then have "\<not> is_non_empty_file (a_xml_file a) (files w)"
      by (auto simp: is_non_empty_file_def)
    with callable kn sch
    have "XMLParser_init lib a h w
        = Inl (RuntimeError (a_xml_file a @ '' is empty or non-existing.''), start_session (a_tag a) h1 w)"
      by (simp add: XMLParser_init_def Let_def)
    then show "\<exists>s. XMLParser_init lib a h w
                   = Inl (RuntimeError (a_xml_file a @ '' is empty or non-existing.''), s)
               \<and> calls s = [] \<and> xml_tree s = iterparse_new (a_tag a) \<and> os s = w"
      by simp
  next
    fix content
    assume c: "files w (a_xml_file a) = Some (File content) \<and> content \<noteq> []"
    then have ne: "is_non_empty_file (a_xml_file a) (files w)"
      and fc: "file_content (a_xml_file a) (files w) = content"
      by (simp_all add: is_non_empty_file_def file_content_def)
    from XMLParser_init_run [OF callable kn sch ne]
    show "\<exists>self s. XMLParser_init lib a h w
                   = (case fast_iteration self (tokens lib content (a_dtd_validation a) (schema self)) s of
                        Inl x \<Rightarrow> Inl x | Inr s1 \<Rightarrow> Inr (self, s1))
               \<and> python_callable self = f
               \<and> calls s = [] \<and> xml_tree s = iterparse_new (a_tag a) \<and> os s = w"
      by (intro exI [of _ "new_self a f kw"] exI [of _ "start_session (a_tag a) h1 w"])
         (simp add: fc)
  qed
qed

text \<open>
  C8, as the specification words it, does not hold for every call: with a missing input
  file and schema bytes that are not a schema, the constructor raises the error of the
  schema, not the error of the guard.
\<close>

theorem guard_precedence_counterexample:
  "files \<lparr>files = (\<lambda>p. None), stdout = []\<rparr> (a_xml_file (ex_args None (Some ''x''))) = None
   \<and> XMLParser_init (ex_lib []) (ex_args None (Some ''x'')) [] \<lparr>files = (\<lambda>p. None), stdout = []\<rparr>
       = Inl (XMLSyntaxError, start_session None [[]] \<lparr>files = (\<lambda>p. None), stdout = []\<rparr>)"
  by (simp add: XMLParser_init_def kwargs_or_new_def compile_schema_def ex_args_def new_self_def
      alloc_def Let_def)

theorem guard_on_input_file_witness:
  "a_python_callable (ex_args None None) = Some (\<lambda>el args kw h w. Inr w)
   \<and> a_schema (ex_args None None) = None
   \<and> files \<lparr>files = [''in.xml'' \<mapsto> File []], stdout = []\<rparr> (a_xml_file (ex_args None None)) = Some (File [])
   \<and> (\<exists>s. XMLParser_init (ex_lib ex_toks) (ex_args None None) [] \<lparr>files = [''in.xml'' \<mapsto> File []], stdout = []\<rparr>
            = Inl (RuntimeError ''in.xml is empty or non-existing.'', s) \<and> calls s = [])
   \<and> files (ex_world ''<root/>'') (a_xml_file (ex_args None None)) = Some (File ''<root/>'')
   \<and> ''<root/>'' \<noteq> []
   \<and> (\<exists>self s. XMLParser_init (ex_lib ex_toks) (ex_args None None) [] (ex_world ''<root/>'')
            = (case fast_iteration self ex_toks s of Inl x \<Rightarrow> Inl x | Inr s1 \<Rightarrow> Inr (self, s1))
        \<and> calls s = [])"
proof -
  have a: "a_python_callable (ex_args None None) = Some (\<lambda>el args kw h w. Inr w)"
    and b: "a_schema (ex_args None None) = None"
    and n: "a_xml_file (ex_args None None) = ''in.xml''"
    by (simp_all add: ex_args_def)
  have c: "files \<lparr>files = [''in.xml'' \<mapsto> File []], stdout = []\<rparr> (a_xml_file (ex_args None None)) = Some (File [])"
    and d: "files (ex_world ''<root/>'') (a_xml_file (ex_args None None)) = Some (File ''<root/>'')"
    by (simp_all add: n ex_world_def)
  from b have b': "a_schema (ex_args None None) = None \<or> a_schema (ex_args None None) = Some []
      \<or> (\<exists>b. a_schema (ex_args None None) = Some b \<and> XMLSchema (ex_lib ex_toks) b = None)"
    by simp
  note g1 = guard_on_input_file [OF a b', of "\<lparr>files = [''in.xml'' \<mapsto> File []], stdout = []\<rparr>" "[]", THEN conjunct1]
  note g2 = guard_on_input_file [OF a b', of "ex_world ''<root/>''" "[]", THEN conjunct2]
  from g1 c have e: "\<exists>s. XMLParser_init (ex_lib ex_toks) (ex_args None None) [] \<lparr>files = [''in.xml'' \<mapsto> File []], stdout = []\<rparr>
            = Inl (RuntimeError ''in.xml is empty or non-existing.'', s) \<and> calls s = []"
    by (auto simp: n)
  from g2 d have f: "\<exists>self s. XMLParser_init (ex_lib ex_toks) (ex_args None None) [] (ex_world ''<root/>'')
            = (case fast_iteration self ex_toks s of Inl x \<Rightarrow> Inl x | Inr s1 \<Rightarrow> Inr (self, s1))
        \<and> calls s = []"
    by (auto simp: n)
  from a b c d e f show ?thesis by simp
qed

section \<open>The example of the specification\<close>

lemmas run_defs = XMLParser_init_def kwargs_or_new_def compile_schema_def is_non_empty_file_def
      file_content_def ex_world_def new_self_def start_session_def
      fast_iteration_def alloc_def feed_def
      iterparse_new_def loop_body_def Let_def tag_matches_def append_child_def add_text_def
      prune_def clear_def del_first_def start_ns_def ns_key_def

text \<open>
  C5. On the document of the example, with the filter \<open>r\<close> and the handler of the
  repository, the run does not complete: no namespace is declared, so the handler gets
  no \<^verbatim>\<open>namespaces\<close> argument, and its first statement, the \<^verbatim>\<open>print\<close> of line 115 with
  the XPath \<^verbatim>\<open>ns:c1/text()\<close>, raises at the first matching element. The handler was
  called once, for the first of the two matching elements, and the output file does not
  exist.
\<close>

theorem csv_example_raises:
  "isl (csv_run ex_doc ''<root><r><c1>A</c1><c2>B</c2></r><r><c1>C</c1><c2>D</c2></r></root>'' ''r'')
   \<and> fst (projl (csv_run ex_doc
         ''<root><r><c1>A</c1><c2>B</c2></r><r><c1>C</c1><c2>D</c2></r></root>'' ''r'')) = XPathEvalError
   \<and> files (os (final_init (csv_run ex_doc
         ''<root><r><c1>A</c1><c2>B</c2></r><r><c1>C</c1><c2>D</c2></r></root>'' ''r''))) ''out.csv'' = None
   \<and> map (\<lambda>c. el_id (c_element c)) (calls (final_init (csv_run ex_doc
         ''<root><r><c1>A</c1><c2>B</c2></r><r><c1>C</c1><c2>D</c2></r></root>'' ''r''))) = [2]
   \<and> count_matching (Some ''r'') ex_doc = 2"
  by (simp add: csv_run_def csv_args_def ex_doc_def run_defs convert_to_csv_def xpath_ns_c1_def)

text \<open>
  With a default namespace declared, the same handler writes the two rows, each ended by
  carriage return and line feed.
\<close>

lemma csv_example_with_default_namespace:
  "\<not> isl (csv_run ex_doc_ns ''<root xmlns=u>...</root>'' ''{u}r'')
   \<and> files (os (final_init (csv_run ex_doc_ns ''<root xmlns=u>...</root>'' ''{u}r''))) ''out.csv''
       = Some (File (''A;B'' @ [CHR 0x0D, CHR 0x0A] @ ''C;D'' @ [CHR 0x0D, CHR 0x0A]))"
  by (simp add: csv_run_def csv_args_def ex_doc_ns_def run_defs convert_to_csv_def xpath_ns_c1_def
      writerow_def csv_field_def repr_list_def)

section \<open>A root element after a comment\<close>


section \<open>The tree that stays reachable\<close>











end
